theory Spec2Isabelle
  imports Main "HOL-Library.Sublist"
begin

section \<open>JavaScript values\<close>

text \<open>
  A function (a class is a constructor function) has an identity and a \<open>name\<close> property.
  Two functions with the same name are still different keys of a \<open>Map\<close>.
\<close>

datatype func = Func (fid: nat) (fname: string)

text \<open>
  Plain values: primitives, buffers, object literals, native errors (\<open>name\<close>, \<open>message\<close>,
  \<open>stack\<close>) and structured HTTP errors (\<open>code\<close>, \<open>message\<close>, \<open>data\<close>, \<open>stack\<close>).
\<close>

datatype jsval =
    JUndefined
  | JNull
  | JBool bool
  | JNum int
  | JStr string
  | JBuffer "nat list"
  | JRecord "(string \<times> jsval) list"
  | JError string jsval jsval
  | JHttpError int jsval jsval jsval

section \<open>The provider registry (class Injector)\<close>

subsection \<open>Data model\<close>

text \<open>
  A lookup key is \<open>any\<close> in the source; the keys in use are constructor functions and
  string tokens. \<open>isFunction\<close> of the core module holds of the former.
\<close>

datatype key = KFun func | KStr string

text \<open>
  \<open>IProvider\<close>: \<open>{provide, useClass?, useValue?}\<close>. An optional field that is present in
  the sense of \<open>isPresent\<close> of the core module is \<open>Some\<close>.
\<close>

record provider =
  provide :: key
  useClass :: "func option"
  useValue :: "jsval option"

type_synonym ref = nat
type_synonym aref = nat

text \<open>
  What a key is bound to in a container: a plain value (\<open>useValue\<close>), an instance that the
  container constructed (by its object identity), or an injector (\<open>set(Injector, this)\<close>).
\<close>

datatype bound = Value jsval | Instance nat | InjectorRef ref

text \<open>
  What the container does to the instances it builds, in the order it does it:
  \<open>Reflect.construct(useClass, args)\<close>, \<open>Reflect.defineProperty(instance, key, {value,
  writable})\<close> and \<open>instance.afterConstruct()\<close> with its argument list. The bodies of the
  constructors and hooks belong to the application classes.
\<close>

datatype event =
    Construct nat func "bound list"
  | DefineProperty nat string bound bool
  | AfterConstruct nat "bound list"

fun obj_of :: "event \<Rightarrow> nat" where
  "obj_of (Construct oid cls args) = oid"
| "obj_of (DefineProperty oid k v w) = oid"
| "obj_of (AfterConstruct oid args) = oid"

text \<open>
  An \<open>Injector\<close> object: \<open>_uid\<close>, \<open>_providers\<close> (a \<open>Map\<close> owned by this object alone),
  \<open>_children\<close> (a reference to an array object: the field is reassigned by \<open>destroy\<close>, and
  the array is mutated through the parent link while it is being iterated), \<open>parent\<close>.
\<close>

record injector =
  uid :: string
  providers :: "key \<rightharpoonup> bound"
  children :: aref
  parent :: "ref option"

text \<open>
  The store: injector objects and array objects by address, with the next free addresses;
  the instances constructed so far are numbered below \<open>next_obj\<close>, and \<open>trace\<close> records
  what was done to them.
\<close>

record heap =
  injs :: "ref \<Rightarrow> injector"
  arrs :: "aref \<Rightarrow> ref list"
  next_inj :: ref
  next_arr :: aref
  trace :: "event list"
  next_obj :: nat

text \<open>The elements of the array that \<open>_children\<close> of injector \<open>i\<close> refers to.\<close>

definition kids :: "heap \<Rightarrow> ref \<Rightarrow> ref list" where
  "kids h i = arrs h (children (injs h i))"

subsection \<open>Array primitives of the language\<close>

text \<open>\<open>Array.prototype.indexOf\<close>: the first index holding the element, or \<open>-1\<close>.\<close>

fun indexOf :: "'a list \<Rightarrow> 'a \<Rightarrow> int" where
  "indexOf [] x = - 1"
| "indexOf (y # ys) x =
     (if y = x then 0
      else (let i = indexOf ys x in if i < 0 then - 1 else i + 1))"

text \<open>
  \<open>Array.prototype.splice(start, deleteCount)\<close> with no inserted items: a negative
  \<open>start\<close> counts from the end of the array, so \<open>splice(-1, 1)\<close> removes the last element.
\<close>

definition splice_js :: "int \<Rightarrow> nat \<Rightarrow> 'a list \<Rightarrow> 'a list" where
  "splice_js start deleteCount xs =
     (let len = int (length xs);
          actualStart = (if start < 0 then max (len + start) 0 else min start len);
          actualDeleteCount = min (int deleteCount) (len - actualStart)
      in take (nat actualStart) xs @ drop (nat (actualStart + actualDeleteCount)) xs)"

text \<open>
  \<open>Array.prototype.forEach\<close>: the length is read once, before the first call; at each index
  below it the callback runs only when the array still has that index, on the element the
  array holds then. The callback receives the store and returns the new one (\<open>None\<close>: the
  callback did not return).
\<close>

fun forEach_from :: "nat \<Rightarrow> nat \<Rightarrow> aref \<Rightarrow> (ref \<Rightarrow> heap \<Rightarrow> heap option) \<Rightarrow> heap \<Rightarrow> heap option" where
  "forEach_from k 0 a f h = Some h"
| "forEach_from k (Suc r) a f h =
     (if k < length (arrs h a)
      then (case f (arrs h a ! k) h of
              None \<Rightarrow> None
            | Some h' \<Rightarrow> forEach_from (Suc k) r a f h')
      else forEach_from (Suc k) r a f h)"

definition forEach :: "aref \<Rightarrow> (ref \<Rightarrow> heap \<Rightarrow> heap option) \<Rightarrow> heap \<Rightarrow> heap option" where
  "forEach a f h = forEach_from 0 (length (arrs h a)) a f h"

subsection \<open>has, set, get\<close>

definition has :: "heap \<Rightarrow> ref \<Rightarrow> key \<Rightarrow> bool" where
  "has h this k = (providers (injs h this) k \<noteq> None)"

definition set_provider :: "ref \<Rightarrow> key \<Rightarrow> bound \<Rightarrow> heap \<Rightarrow> heap" where
  "set_provider this k v h =
     h\<lparr>injs := (injs h)(this := (injs h this)\<lparr>providers := (providers (injs h this))(k \<mapsto> v)\<rparr>)\<rparr>"

text \<open>
  What the container throws: \<open>new Error(message)\<close> from \<open>get\<close>, and the engine's
  \<open>TypeError\<close> when \<open>Reflect.construct\<close> is given no constructor.
\<close>

datatype exn = Error string | TypeError string

text \<open>
  The text for the key in the message: \<open>isFunction(provider) ? provider.name : toString(provider)\<close>.
  The helper \<open>toString\<close> of the core module is a parameter.
\<close>

definition key_text :: "(string \<Rightarrow> string) \<Rightarrow> key \<Rightarrow> string" where
  "key_text toString k = (case k of KFun f \<Rightarrow> fname f | KStr s \<Rightarrow> toString s)"

text \<open>The text for the requesting class: \<open>isFunction(Class.provide) ? Class.provide.name : Class.provide\<close>.\<close>

definition class_text :: "provider \<Rightarrow> string" where
  "class_text Class = (case provide Class of KFun f \<Rightarrow> fname f | KStr s \<Rightarrow> s)"

definition no_provider :: "(string \<Rightarrow> string) \<Rightarrow> key \<Rightarrow> provider option \<Rightarrow> string \<Rightarrow> exn" where
  "no_provider toString k Class u =
     (case Class of
        Some c \<Rightarrow>
          Error (''No provider for '' @ key_text toString k @ '' on class '' @ class_text c
                 @ '' , injector: '' @ u)
      | None \<Rightarrow> Error (''No provider for '' @ key_text toString k @ '', injector: '' @ u))"

text \<open>
  \<open>get\<close> follows the parent links; on a cyclic chain it does not return (\<open>None\<close>).
  The optional argument \<open>Class\<close> is present (\<open>isPresent\<close>) when it is \<open>Some\<close>.
\<close>

partial_function (option) get ::
  "(string \<Rightarrow> string) \<Rightarrow> heap \<Rightarrow> ref \<Rightarrow> key \<Rightarrow> provider option \<Rightarrow> (exn + bound) option" where
  "get toString h this k Class =
     (if \<not> has h this k \<and> parent (injs h this) \<noteq> None
      then get toString h (the (parent (injs h this))) k Class
      else if has h this k
      then Some (Inr (the (providers (injs h this) k)))
      else Some (Inl (no_provider toString k Class (uid (injs h this)))))"

declare get.simps [code]

subsection \<open>setChild, removeChild, destroy\<close>

definition setChild :: "ref \<Rightarrow> ref \<Rightarrow> heap \<Rightarrow> heap" where
  "setChild this injector h =
     h\<lparr>arrs := (arrs h)(children (injs h this) := kids h this @ [injector])\<rparr>"

definition removeChild :: "ref \<Rightarrow> ref \<Rightarrow> heap \<Rightarrow> heap" where
  "removeChild this injector h =
     h\<lparr>arrs := (arrs h)(children (injs h this) :=
          splice_js (indexOf (kids h this) injector) 1 (kids h this))\<rparr>"

text \<open>\<open>this._children = []\<close>: a new, empty array object.\<close>

definition reset_children :: "ref \<Rightarrow> heap \<Rightarrow> heap" where
  "reset_children this h =
     h\<lparr>injs := (injs h)(this := (injs h this)\<lparr>children := next_arr h\<rparr>),
       arrs := (arrs h)(next_arr h := []),
       next_arr := Suc (next_arr h)\<rparr>"

definition clear_parent :: "ref \<Rightarrow> heap \<Rightarrow> heap" where
  "clear_parent this h = h\<lparr>injs := (injs h)(this := (injs h this)\<lparr>parent := None\<rparr>)\<rparr>"

definition clear_providers :: "ref \<Rightarrow> heap \<Rightarrow> heap" where
  "clear_providers this h = h\<lparr>injs := (injs h)(this := (injs h this)\<lparr>providers := Map.empty\<rparr>)\<rparr>"

text \<open>\<open>if (this.parent instanceof Injector) this.parent.removeChild(this)\<close>.\<close>

definition detach :: "ref \<Rightarrow> heap \<Rightarrow> heap" where
  "detach this h =
     (case parent (injs h this) of
        Some p \<Rightarrow> removeChild p this h
      | None \<Rightarrow> h)"

text \<open>
  \<open>destroy\<close> calls itself on the children; the first argument bounds the depth of these
  calls (\<open>None\<close>: deeper than the bound).
\<close>

primrec destroy :: "nat \<Rightarrow> ref \<Rightarrow> heap \<Rightarrow> heap option" where
  "destroy 0 this h = None"
| "destroy (Suc n) this h =
     (let h1 = detach this h
      in case forEach (children (injs h1 this)) (destroy n) h1 of
           None \<Rightarrow> None
         | Some h2 \<Rightarrow> Some (clear_providers this (clear_parent this (reset_children this h2))))"

text \<open>
  A container is in destroyed state when it has no local binding, no parent link and no
  child.
\<close>

definition destroyed :: "heap \<Rightarrow> ref \<Rightarrow> bool" where
  "destroyed h i = (providers (injs h i) = Map.empty \<and> parent (injs h i) = None \<and> kids h i = [])"

subsection \<open>The constructor\<close>

text \<open>
  \<open>new Injector(parent)\<close>: a new object with a generated \<open>_uid\<close> (the result of \<open>uuid()\<close> is
  the argument \<open>u\<close>), an empty map and a new empty array of children. The new object is
  at address \<open>next_inj\<close> of the store before the call.
\<close>

definition new_Injector :: "string \<Rightarrow> ref option \<Rightarrow> heap \<Rightarrow> heap" where
  "new_Injector u p h =
     h\<lparr>injs := (injs h)(next_inj h :=
          \<lparr>uid = u, providers = Map.empty, children = next_arr h, parent = p\<rparr>),
       arrs := (arrs h)(next_arr h := []),
       next_inj := Suc (next_inj h),
       next_arr := Suc (next_arr h)\<rparr>"

definition empty_heap :: heap where
  "empty_heap =
     \<lparr>injs = (\<lambda>_. \<lparr>uid = [], providers = Map.empty, children = 0, parent = None\<rparr>),
      arrs = (\<lambda>_. []), next_inj = 0, next_arr = 0, trace = [], next_obj = 0\<rparr>"

subsection \<open>createAndResolve\<close>

text \<open>\<open>IInjectKey\<close>: a property name, the key to inject there and the mutability flag.\<close>

record inject_key =
  ik_key :: string
  ik_value :: key
  isMutable :: bool

text \<open>
  What \<open>createAndResolve\<close> takes from outside the class: the \<open>toString\<close> helper of the core
  module, the functions of \<open>Metadata\<close> (\<open>getConstructorPrototypeKeys\<close> is \<open>None\<close> when its
  result is not an array), and two facts about a class: whether its prototype has an own
  property \<open>afterConstruct\<close>, and whether \<open>afterConstruct\<close> of its instances is a function.
\<close>

record externals =
  core_toString :: "string \<Rightarrow> string"
  getConstructorProviders :: "key \<Rightarrow> provider list"
  mergeProviders :: "provider list \<Rightarrow> provider list \<Rightarrow> provider list"
  getConstructorInjectKeys :: "key \<Rightarrow> key list"
  getConstructorPrototypeKeys :: "func \<Rightarrow> inject_key list option"
  hasOwn_afterConstruct :: "func \<Rightarrow> bool"
  afterConstruct_isFunction :: "func \<Rightarrow> bool"

text \<open>The class \<open>Injector\<close> itself, used as a key.\<close>

definition Injector_class :: func where
  "Injector_class = Func 0 ''Injector''"

text \<open>Sequencing of calls that may throw (\<open>Inl\<close>) or not return (\<open>None\<close>).\<close>

definition bind_res :: "(exn + 'a) option \<Rightarrow> ('a \<Rightarrow> (exn + 'b) option) \<Rightarrow> (exn + 'b) option" where
  "bind_res r f =
     (case r of
        None \<Rightarrow> None
      | Some (Inl e) \<Rightarrow> Some (Inl e)
      | Some (Inr x) \<Rightarrow> f x)"

text \<open>\<open>keys.map(arg => this.get(arg, provider))\<close>.\<close>

fun get_all :: "(string \<Rightarrow> string) \<Rightarrow> heap \<Rightarrow> ref \<Rightarrow> key list \<Rightarrow> provider option \<Rightarrow> (exn + bound list) option" where
  "get_all ts h this [] Class = Some (Inr [])"
| "get_all ts h this (k # ks) Class =
     bind_res (get ts h this k Class) (\<lambda>v.
     bind_res (get_all ts h this ks Class) (\<lambda>vs. Some (Inr (v # vs))))"

text \<open>
  \<open>protoKeys.forEach(item => { let value = this.get(item.value);
  Reflect.defineProperty(instance, item.key, {value: value, writable: item.isMutable}); })\<close>.
\<close>

fun define_all :: "externals \<Rightarrow> ref \<Rightarrow> nat \<Rightarrow> inject_key list \<Rightarrow> heap \<Rightarrow> (exn + heap) option" where
  "define_all X this oid [] h = Some (Inr h)"
| "define_all X this oid (item # items) h =
     bind_res (get (core_toString X) h this (ik_value item) None) (\<lambda>v.
     define_all X this oid items
       (h\<lparr>trace := trace h @ [DefineProperty oid (ik_key item) v (isMutable item)]\<rparr>))"

text \<open>\<open>providers.forEach(item => f(item))\<close> on an array that the callback does not change.\<close>

fun resolve_all :: "(provider \<Rightarrow> heap \<Rightarrow> (exn + bound \<times> heap) option) \<Rightarrow> provider list \<Rightarrow> heap \<Rightarrow> (exn + heap) option" where
  "resolve_all f [] h = Some (Inr h)"
| "resolve_all f (item # items) h =
     bind_res (f item h) (\<lambda>r. resolve_all f items (snd r))"

text \<open>
  The part of \<open>createAndResolve\<close> after the \<open>useValue\<close> test: the constructor arguments, the
  construction, the injected properties, the binding, the hook, the binding of the injector.
\<close>

definition instantiate :: "externals \<Rightarrow> ref \<Rightarrow> provider \<Rightarrow> heap \<Rightarrow> (exn + bound \<times> heap) option" where
  "instantiate X this provider h =
     bind_res (get_all (core_toString X) h this (getConstructorInjectKeys X (provide provider))
                 (Some provider)) (\<lambda>args.
     case useClass provider of
       None \<Rightarrow> Some (Inl (TypeError ''undefined is not a constructor''))
     | Some cls \<Rightarrow>
         (let oid = next_obj h;
              h1 = h\<lparr>trace := trace h @ [Construct oid cls args], next_obj := Suc oid\<rparr>
          in bind_res (case getConstructorPrototypeKeys X cls of
                         Some protoKeys \<Rightarrow> define_all X this oid protoKeys h1
                       | None \<Rightarrow> Some (Inr h1)) (\<lambda>h2.
             let h3 = set_provider this (provide provider) (Instance oid) h2;
                 h4 = (if hasOwn_afterConstruct X cls \<and> afterConstruct_isFunction X cls
                       then h3\<lparr>trace := trace h3 @ [AfterConstruct oid []]\<rparr>
                       else h3);
                 h5 = set_provider this (KFun Injector_class) (InjectorRef this) h4
             in Some (Inr (Instance oid, h5)))))"

text \<open>
  \<open>createAndResolve\<close> calls itself on the merged providers; the first argument bounds the
  depth of these calls. \<open>useValue\<close> is present (\<open>isPresent\<close>) when it is \<open>Some\<close>.
\<close>

primrec createAndResolve :: "nat \<Rightarrow> externals \<Rightarrow> ref \<Rightarrow> provider \<Rightarrow> provider list \<Rightarrow> heap \<Rightarrow> (exn + bound \<times> heap) option" where
  "createAndResolve 0 X this provider providerList h = None"
| "createAndResolve (Suc n) X this provider providerList h =
     (let merged = mergeProviders X (getConstructorProviders X (provide provider)) providerList
      in bind_res (resolve_all (\<lambda>item. createAndResolve n X this item
                                  (getConstructorProviders X (provide item))) merged h) (\<lambda>h1.
         case useValue provider of
           Some v \<Rightarrow>
             (let h2 = set_provider this (provide provider) (Value v) h1
              in bind_res (get (core_toString X) h2 this (provide provider) None) (\<lambda>b. Some (Inr (b, h2))))
         | None \<Rightarrow> instantiate X this provider h1))"

section \<open>The request orchestrator (class Request)\<close>

subsection \<open>Collaborators\<close>

text \<open>
  Modelled from the spec: the enum \<open>Methods\<close> of the router module is not among the sources.
  The route descriptor exposes a normalized method enum (here the HTTP methods), of which
  the orchestrator special-cases POST, PATCH and PUT.
\<close>

datatype Methods = GET | HEAD | DELETE | TRACE | OPTIONS | CONNECT | POST | PUT | PATCH

text \<open>
  \<open>ResolvedRoute\<close>: the fields that \<open>process\<close> reads, \<open>route\<close> and \<open>method\<close> (here
  \<open>route_method\<close>).
\<close>

record ResolvedRoute =
  route :: string
  route_method :: Methods

text \<open>
  What the pipeline takes from outside the class: how a member of \<open>Methods\<close> prints when it
  is appended to a string, \<open>clean\<close> of the logger module, the result of \<open>toString()\<close> on a
  value that has one, the stack trace the engine gives to an error created now, and what
  a call of the logger returns.
\<close>

record env =
  method_text :: "Methods \<Rightarrow> string"
  clean :: "string \<Rightarrow> string"
  toStringOf :: "jsval \<Rightarrow> string"
  stack_trace :: jsval
  logger_returns :: jsval

datatype level = TraceLevel | InfoLevel | ErrorLevel

text \<open>The calls on the \<open>ServerResponse\<close>: \<open>writeHead(code, headers)\<close>, \<open>write(chunk)\<close>, \<open>end()\<close>.\<close>

datatype response_call = WriteHead int "(string \<times> string) list" | Write jsval | End

text \<open>The closure \<open>() => this.destroy()\<close> that \<open>process\<close> attaches to the response.\<close>

datatype listener = CallDestroy

text \<open>
  The orchestrator with the objects it holds: its injected fields; the calls made on the
  response and the one-shot listeners attached to it; the listeners that others attached
  to the event emitter (event, listener identity, one-shot flag), the events emitted on
  it and the deliveries to listeners; the calls on the logger (severity and message).
\<close>

record request =
  isCustomError :: bool
  isForwarded :: bool
  isForwarder :: bool
  data :: "jsval list"
  statusCode :: int
  response_calls :: "response_call list"
  response_once :: "(string \<times> listener) list"
  emitter_listeners :: "(string \<times> nat \<times> bool) list"
  emitted :: "string list"
  delivered :: "(string \<times> nat) list"
  logged :: "(level \<times> jsval) list"

text \<open>How a promise ends: fulfilled, rejected, or never settled.\<close>

datatype 'a outcome = Fulfilled 'a | Rejected jsval | Pending

text \<open>The body of the incoming message: its chunks in arrival order, and whether \<open>end\<close> is signalled.\<close>

record body =
  chunks :: "jsval list"
  ended :: bool

subsection \<open>The language and the library\<close>

text \<open>The \<open>TypeError\<close> of the engine.\<close>

definition type_error :: "env \<Rightarrow> string \<Rightarrow> jsval" where
  "type_error E what = JError ''TypeError'' (JStr what) (stack_trace E)"

text \<open>A property of an object literal: the last entry with that name, \<open>undefined\<close> without one.\<close>

definition field :: "(string \<times> jsval) list \<Rightarrow> string \<Rightarrow> jsval" where
  "field fs name = (case map_of (rev fs) name of Some v \<Rightarrow> v | None \<Rightarrow> JUndefined)"

text \<open>Reading \<open>v.message\<close> and \<open>v.stack\<close>: a \<open>TypeError\<close> on \<open>undefined\<close> and \<open>null\<close>.\<close>

fun prop_message :: "env \<Rightarrow> jsval \<Rightarrow> jsval + jsval" where
  "prop_message E JUndefined = Inl (type_error E ''Cannot read property 'message' of undefined'')"
| "prop_message E JNull = Inl (type_error E ''Cannot read property 'message' of null'')"
| "prop_message E (JError n m st) = Inr m"
| "prop_message E (JHttpError c m d st) = Inr m"
| "prop_message E (JRecord fs) = Inr (field fs ''message'')"
| "prop_message E v = Inr JUndefined"

fun prop_stack :: "env \<Rightarrow> jsval \<Rightarrow> jsval + jsval" where
  "prop_stack E JUndefined = Inl (type_error E ''Cannot read property 'stack' of undefined'')"
| "prop_stack E JNull = Inl (type_error E ''Cannot read property 'stack' of null'')"
| "prop_stack E (JError n m st) = Inr st"
| "prop_stack E (JHttpError c m d st) = Inr st"
| "prop_stack E (JRecord fs) = Inr (field fs ''stack'')"
| "prop_stack E v = Inr JUndefined"

text \<open>\<open>v.toString()\<close>.\<close>

fun call_toString :: "env \<Rightarrow> jsval \<Rightarrow> jsval + string" where
  "call_toString E JUndefined = Inl (type_error E ''Cannot read property 'toString' of undefined'')"
| "call_toString E JNull = Inl (type_error E ''Cannot read property 'toString' of null'')"
| "call_toString E v = Inr (toStringOf E v)"

text \<open>
  Modelled from the spec: the class \<open>HttpError\<close> of the error module is not among the
  sources. It is a structured error carrying an HTTP status code and a message, and the
  value given for diagnostics; \<open>getCode()\<close> returns the status code.
\<close>

definition new_HttpError :: "env \<Rightarrow> int \<Rightarrow> jsval \<Rightarrow> jsval \<Rightarrow> jsval" where
  "new_HttpError E c m d = JHttpError c m d (stack_trace E)"

fun instanceof_HttpError :: "jsval \<Rightarrow> bool" where
  "instanceof_HttpError (JHttpError c m d st) = True"
| "instanceof_HttpError v = False"

text \<open>\<open>error.stack = st\<close> on a structured error.\<close>

fun set_stack :: "jsval \<Rightarrow> jsval \<Rightarrow> jsval" where
  "set_stack (JHttpError c m d old) st = JHttpError c m d st"
| "set_stack v st = v"

text \<open>\<open>v.getCode()\<close>: only a structured error has the method.\<close>

fun call_getCode :: "env \<Rightarrow> jsval \<Rightarrow> jsval + int" where
  "call_getCode E (JHttpError c m d st) = Inr c"
| "call_getCode E JUndefined = Inl (type_error E ''Cannot read property 'getCode' of undefined'')"
| "call_getCode E JNull = Inl (type_error E ''Cannot read property 'getCode' of null'')"
| "call_getCode E v = Inl (type_error E ''error.getCode is not a function'')"

text \<open>
  Modelled from the spec: \<open>isString\<close> of the core module is not among the sources; the
  payload of \<open>render\<close> must be textual or binary.
\<close>

fun isString :: "jsval \<Rightarrow> bool" where
  "isString (JStr s) = True"
| "isString v = False"

fun instanceof_Buffer :: "jsval \<Rightarrow> bool" where
  "instanceof_Buffer (JBuffer b) = True"
| "instanceof_Buffer v = False"

text \<open>A call of the logger.\<close>

definition logger :: "level \<Rightarrow> jsval \<Rightarrow> request \<Rightarrow> request" where
  "logger l m s = s\<lparr>logged := logged s @ [(l, m)]\<rparr>"

text \<open>
  \<open>emit\<close> of the event emitter: the event is delivered to the listeners attached for it, in
  order, and the one-shot ones among them are detached. \<open>removeAllListeners()\<close> detaches all.
\<close>

definition emit :: "string \<Rightarrow> request \<Rightarrow> request" where
  "emit ev s =
     s\<lparr>emitted := emitted s @ [ev],
       delivered := delivered s @ map (\<lambda>l. (ev, fst (snd l))) (filter (\<lambda>l. fst l = ev) (emitter_listeners s)),
       emitter_listeners := filter (\<lambda>l. \<not> (fst l = ev \<and> snd (snd l))) (emitter_listeners s)\<rparr>"

definition removeAllListeners :: "request \<Rightarrow> request" where
  "removeAllListeners s = s\<lparr>emitter_listeners := []\<rparr>"

subsection \<open>destroy, render, process\<close>

definition Request_destroy :: "request \<Rightarrow> request" where
  "Request_destroy s = removeAllListeners (emit ''destroy'' s)"

text \<open>
  The response emits an event: each listener attached with \<open>once\<close> for it is detached and
  then called.
\<close>

fun run_listener :: "listener \<Rightarrow> request \<Rightarrow> request" where
  "run_listener CallDestroy s = Request_destroy s"

definition response_emit :: "string \<Rightarrow> request \<Rightarrow> request" where
  "response_emit ev s =
     fold (\<lambda>l. run_listener (snd l)) (filter (\<lambda>l. fst l = ev) (response_once s))
       (s\<lparr>response_once := filter (\<lambda>l. fst l \<noteq> ev) (response_once s)\<rparr>)"

text \<open>\<open>render\<close> returns the payload (\<open>Inr\<close>) or throws (\<open>Inl\<close>).\<close>

definition render :: "env \<Rightarrow> jsval \<Rightarrow> request \<Rightarrow> (jsval + jsval) \<times> request" where
  "render E response s =
     (let s1 = logger InfoLevel (JStr ''Request.render'') s
      in if isString response \<or> instanceof_Buffer response
         then (Inr response,
               s1\<lparr>response_calls := response_calls s1 @
                    [WriteHead (statusCode s1) [(''Content-Type'', ''text/html'')],
                     Write response,
                     End]\<rparr>)
         else (Inl (new_HttpError E 500 (JStr ''ResponseType must be string or buffer'')
                      (JRecord [(''response'', response)])),
               logger ErrorLevel (JStr ''Invalid response type'') s1))"

text \<open>A handler that returns or throws settles the promise of its \<open>then\<close> or \<open>catch\<close>.\<close>

fun settle :: "(jsval + 'a) \<times> request \<Rightarrow> 'a outcome \<times> request" where
  "settle (Inr v, s) = (Fulfilled v, s)"
| "settle (Inl e, s) = (Rejected e, s)"

fun then_js :: "('a \<Rightarrow> request \<Rightarrow> 'b outcome \<times> request) \<Rightarrow> 'a outcome \<times> request \<Rightarrow> 'b outcome \<times> request" where
  "then_js f (Fulfilled v, s) = f v s"
| "then_js f (Rejected e, s) = (Rejected e, s)"
| "then_js f (Pending, s) = (Pending, s)"

fun catch_js :: "(jsval \<Rightarrow> request \<Rightarrow> 'a outcome \<times> request) \<Rightarrow> 'a outcome \<times> request \<Rightarrow> 'a outcome \<times> request" where
  "catch_js f (Rejected e, s) = f e s"
| "catch_js f (Fulfilled v, s) = (Fulfilled v, s)"
| "catch_js f (Pending, s) = (Pending, s)"

text \<open>The one-shot listeners for \<open>finish\<close> and \<open>close\<close>, unless the request is forwarded.\<close>

definition attach_listeners :: "request \<Rightarrow> request" where
  "attach_listeners s =
     (if \<not> isForwarded s
      then s\<lparr>response_once := response_once s @ [(''finish'', CallDestroy), (''close'', CallDestroy)]\<rparr>
      else s)"

text \<open>
  First \<open>then\<close>: for POST, PATCH and PUT on a request that is not forwarded, every chunk of
  the body is pushed to \<open>data\<close>, and the promise is resolved with the route when the body
  ends; it stays pending when the end is never signalled.
\<close>

definition collect_body :: "body \<Rightarrow> ResolvedRoute \<Rightarrow> request \<Rightarrow> ResolvedRoute outcome \<times> request" where
  "collect_body b resolvedRoute s =
     (let s1 = logger InfoLevel (JStr ''Route.parseRequest'') s
      in if indexOf [POST, PATCH, PUT] (route_method resolvedRoute) > - 1 \<and> \<not> isForwarded s1
         then (if ended b then Fulfilled resolvedRoute else Pending,
               s1\<lparr>data := data s1 @ chunks b\<rparr>)
         else (Fulfilled resolvedRoute, s1))"

text \<open>Second \<open>then\<close>: \<open>this.render(resolvedRoute.route + resolvedRoute.method)\<close>.\<close>

definition render_route :: "env \<Rightarrow> ResolvedRoute \<Rightarrow> request \<Rightarrow> jsval outcome \<times> request" where
  "render_route E resolvedRoute s =
     settle (render E (JStr (route resolvedRoute @ method_text E (route_method resolvedRoute))) s)"

text \<open>\<open>this.render(clean(error.toString()))\<close>.\<close>

definition render_error :: "env \<Rightarrow> jsval \<Rightarrow> request \<Rightarrow> jsval outcome \<times> request" where
  "render_error E error s =
     (case call_toString E error of
        Inl t \<Rightarrow> (Rejected t, s)
      | Inr txt \<Rightarrow> settle (render E (JStr (clean E txt)) s))"

text \<open>The value of \<open>error\<close> after the block under \<open>force HttpError to be thrown\<close>.\<close>

definition force_HttpError :: "env \<Rightarrow> jsval \<Rightarrow> jsval + jsval" where
  "force_HttpError E error =
     (if \<not> instanceof_HttpError error
      then (case prop_message E error of
              Inl t \<Rightarrow> Inl t
            | Inr m \<Rightarrow>
                (case prop_stack E error of
                   Inl t \<Rightarrow> Inl t
                 | Inr st \<Rightarrow> Inr (set_stack (new_HttpError E 500 m (JRecord [])) st)))
      else Inr error)"

text \<open>The three \<open>catch\<close> handlers.\<close>

definition first_catch :: "env \<Rightarrow> jsval \<Rightarrow> request \<Rightarrow> jsval outcome \<times> request" where
  "first_catch E error s =
     (case force_HttpError E error of
        Inl t \<Rightarrow> (Rejected t, s)
      | Inr err \<Rightarrow>
          (case prop_message E err of
             Inl t \<Rightarrow> (Rejected t, s)
           | Inr m \<Rightarrow>
               (let s1 = logger ErrorLevel m s
                in case call_getCode E err of
                     Inl t \<Rightarrow> (Rejected t, s1)
                   | Inr c \<Rightarrow> render_error E err (s1\<lparr>statusCode := c\<rparr>))))"

definition second_catch :: "env \<Rightarrow> jsval \<Rightarrow> request \<Rightarrow> jsval outcome \<times> request" where
  "second_catch E error s =
     (case call_getCode E error of
        Inl t \<Rightarrow> (Rejected t, s)
      | Inr c \<Rightarrow> render_error E error (s\<lparr>statusCode := c\<rparr>))"

definition third_catch :: "env \<Rightarrow> jsval \<Rightarrow> request \<Rightarrow> jsval outcome \<times> request" where
  "third_catch E error s =
     (case prop_message E error of
        Inl t \<Rightarrow> (Rejected t, s)
      | Inr m \<Rightarrow> (Fulfilled (logger_returns E), logger ErrorLevel m s))"

text \<open>
  \<open>process\<close>, given how the promise of \<open>router.parseRequest\<close> ends and the body of the
  message: the outcome of the returned promise and the orchestrator afterwards.
\<close>

definition process :: "env \<Rightarrow> ResolvedRoute outcome \<Rightarrow> body \<Rightarrow> request \<Rightarrow> jsval outcome \<times> request" where
  "process E parseRequest b s =
     catch_js (third_catch E)
       (catch_js (second_catch E)
         (catch_js (first_catch E)
           (then_js (render_route E)
             (then_js (collect_body b) (parseRequest, attach_listeners s)))))"

section \<open>Container trees\<close>

text \<open>
  The containers that the entry points build form a tree in the store, in the order of
  creation: the children of a container are registered after the container is created,
  so they have higher addresses, and the parent of a container has a lower one. The
  addresses in use are those below \<open>next_inj\<close>.
\<close>

definition wf_heap :: "heap \<Rightarrow> bool" where
  "wf_heap h \<longleftrightarrow>
     (\<forall>j \<in> {0..<next_inj h}.
        (\<forall>x \<in> set (kids h j). j < x \<and> x < next_inj h) \<and>
        (case parent (injs h j) of None \<Rightarrow> True | Some p \<Rightarrow> p < j))"

text \<open>The container and its ancestors, nearest first (at most \<open>n\<close> ancestors).\<close>

fun ancestors_upto :: "nat \<Rightarrow> heap \<Rightarrow> ref \<Rightarrow> ref list" where
  "ancestors_upto 0 h i = [i]"
| "ancestors_upto (Suc n) h i =
     (case parent (injs h i) of
        None \<Rightarrow> [i]
      | Some p \<Rightarrow> i # ancestors_upto n h p)"

definition ancestors :: "heap \<Rightarrow> ref \<Rightarrow> ref list" where
  "ancestors h i = ancestors_upto i h i"

text \<open>
  What \<open>destroy\<close> may do to the store: arrays and child lists lose elements, parent links
  are cut, identifiers and the addresses in use stay.
\<close>

definition shrinks :: "heap \<Rightarrow> heap \<Rightarrow> bool" where
  "shrinks h h' \<longleftrightarrow>
     next_inj h' = next_inj h \<and>
     (\<forall>a. set (arrs h' a) \<subseteq> set (arrs h a)) \<and>
     (\<forall>j. set (kids h' j) \<subseteq> set (kids h j)) \<and>
     (\<forall>j. parent (injs h' j) = parent (injs h j) \<or> parent (injs h' j) = None) \<and>
     (\<forall>j. uid (injs h' j) = uid (injs h j))"

text \<open>The invariant of the loop over the children in \<open>destroy\<close> of container \<open>i\<close>.\<close>

definition loop_inv :: "heap \<Rightarrow> aref \<Rightarrow> ref \<Rightarrow> heap \<Rightarrow> bool" where
  "loop_inv h1 a i g \<longleftrightarrow>
     wf_heap g \<and> next_inj g = next_inj h1 \<and>
     (\<forall>x \<in> set (arrs g a). i < x \<and> x < next_inj h1) \<and>
     (\<forall>j \<le> i. injs g j = injs h1 j)"

section \<open>Instances and channels\<close>

text \<open>The instances in the trace were all constructed: their numbers are below \<open>next_obj\<close>.\<close>

definition fresh :: "heap \<Rightarrow> bool" where
  "fresh h \<longleftrightarrow> (\<forall>e \<in> set (trace h). obj_of e < next_obj h)"

text \<open>The call of the hook on instance \<open>oid\<close> of class \<open>cls\<close>, when the class declares one.\<close>

definition hook_events :: "externals \<Rightarrow> func \<Rightarrow> nat \<Rightarrow> event list" where
  "hook_events X cls oid =
     (if hasOwn_afterConstruct X cls \<and> afterConstruct_isFunction X cls
      then [AfterConstruct oid []] else [])"

text \<open>
  The pipeline leaves alone the listeners of the response, the event emitter and the
  forwarding flag.
\<close>

definition same_channels :: "request \<Rightarrow> request \<Rightarrow> bool" where
  "same_channels s s' \<longleftrightarrow>
     isForwarded s' = isForwarded s \<and> response_once s' = response_once s \<and>
     emitter_listeners s' = emitter_listeners s \<and> emitted s' = emitted s \<and>
     delivered s' = delivered s"

section \<open>Example states\<close>

text \<open>
  A root container with two registered children; the root and the second child bind the
  token \<open>k\<close>.
\<close>

definition family :: heap where
  "family =
     setChild 0 2 (set_provider 2 (KStr ''k'') (Value (JNum 2)) (new_Injector ''uid-c1'' (Some 0)
    (setChild 0 1 (new_Injector ''uid-c0'' (Some 0)
    (set_provider 0 (KStr ''k'') (Value (JNum 0)) (new_Injector ''uid-root'' None empty_heap))))))"

text \<open>A root container alone.\<close>

definition root_only :: heap where
  "root_only = new_Injector ''uid-root'' None empty_heap"

text \<open>
  Two classes for \<open>createAndResolve\<close>: each takes the token \<open>config\<close> as constructor
  argument and as injected property \<open>settings\<close>; \<open>Foo\<close> declares \<open>afterConstruct\<close> on its
  own prototype and declares the provider of \<open>config\<close>, \<open>Bar\<close> only inherits the hook.
\<close>

definition Foo :: func where
  "Foo = Func 1 ''Foo''"

definition Bar :: func where
  "Bar = Func 2 ''Bar''"

definition foo_provider :: provider where
  "foo_provider = \<lparr>provide = KFun Foo, useClass = Some Foo, useValue = None\<rparr>"

definition bar_provider :: provider where
  "bar_provider = \<lparr>provide = KFun Bar, useClass = Some Bar, useValue = None\<rparr>"

definition config_provider :: provider where
  "config_provider = \<lparr>provide = KStr ''config'', useClass = None, useValue = Some (JStr ''cfg'')\<rparr>"

definition example_externals :: externals where
  "example_externals =
     \<lparr>core_toString = (\<lambda>t. t),
      getConstructorProviders = (\<lambda>k. if k = KFun Foo then [config_provider] else []),
      mergeProviders = (\<lambda>declared overrides. declared @ overrides),
      getConstructorInjectKeys = (\<lambda>k. if k = KFun Foo \<or> k = KFun Bar then [KStr ''config''] else []),
      getConstructorPrototypeKeys = (\<lambda>c. if c = Foo \<or> c = Bar
         then Some [\<lparr>ik_key = ''settings'', ik_value = KStr ''config'', isMutable = False\<rparr>] else None),
      hasOwn_afterConstruct = (\<lambda>c. c = Foo),
      afterConstruct_isFunction = (\<lambda>c. True)\<rparr>"

text \<open>
  An orchestrator as the bootstrap builds it (status code 200, empty buffer, not
  forwarded), with one listener for \<open>destroy\<close> on its event emitter; routes and bodies.
\<close>

definition example_env :: env where
  "example_env = \<lparr>method_text = (\<lambda>m. ''7''), clean = (\<lambda>t. t), toStringOf = (\<lambda>v. ''HttpError''),
     stack_trace = JStr ''at Request.render'', logger_returns = JUndefined\<rparr>"

definition new_request :: request where
  "new_request = \<lparr>isCustomError = False, isForwarded = False, isForwarder = False, data = [],
     statusCode = 200, response_calls = [], response_once = [],
     emitter_listeners = [(''destroy'', 7, False)], emitted = [], delivered = [], logged = []\<rparr>"

definition put_route :: ResolvedRoute where
  "put_route = \<lparr>route = ''/items'', route_method = PUT\<rparr>"

definition get_route :: ResolvedRoute where
  "get_route = \<lparr>route = ''/items'', route_method = GET\<rparr>"

definition abc_body :: body where
  "abc_body = \<lparr>chunks = [JStr ''a'', JStr ''b'', JStr ''c''], ended = True\<rparr>"

definition no_body :: body where
  "no_body = \<lparr>chunks = [], ended = True\<rparr>"

section \<open>Properties of the provider registry\<close>

subsection \<open>What destroy changes\<close>

lemma set_splice: "set (splice_js s d xs) \<subseteq> set xs"
  unfolding splice_js_def Let_def by (auto dest: in_set_takeD in_set_dropD)

lemma shrinks_refl: "shrinks h h"
  by (simp add: shrinks_def)

lemma shrinks_trans: "shrinks h1 h2 \<Longrightarrow> shrinks h2 h3 \<Longrightarrow> shrinks h1 h3"
  unfolding shrinks_def by (metis subset_trans)

lemma shrinks_removeChild: "shrinks h (removeChild p c h)"
  by (auto simp: shrinks_def removeChild_def kids_def dest: set_splice [THEN subsetD])

lemma shrinks_final: "shrinks h (clear_providers i (clear_parent i (reset_children i h)))"
  by (auto simp: shrinks_def clear_providers_def clear_parent_def reset_children_def kids_def)

lemma wf_heap_shrinks: "wf_heap h \<Longrightarrow> shrinks h h' \<Longrightarrow> wf_heap h'"
  unfolding wf_heap_def shrinks_def
  apply (intro ballI conjI)
  apply (metis subsetD)
  apply (metis subsetD)
  apply (metis option.simps(4))
  done

lemma forEach_from_inv:
  assumes step: "\<And>x h h'. I h \<Longrightarrow> x \<in> set (arrs h a) \<Longrightarrow> f x h = Some h' \<Longrightarrow> I h'"
    and "I h" and "forEach_from k r a f h = Some h'"
  shows "I h'"
  using assms(2,3)
proof (induction r arbitrary: k h)
  case 0
  then show ?case by simp
next
  case (Suc r)
  show ?case
  proof (cases "k < length (arrs h a)")
    case True
    with Suc.prems obtain h1 where f: "f (arrs h a ! k) h = Some h1"
      and rest: "forEach_from (Suc k) r a f h1 = Some h'"
      by (auto split: option.splits)
    from True have "arrs h a ! k \<in> set (arrs h a)" by simp
    from step [OF Suc.prems(1) this f] have "I h1" .
    from Suc.IH [OF this rest] show ?thesis .
  next
    case False
    with Suc.prems have "forEach_from (Suc k) r a f h = Some h'" by simp
    from Suc.IH [OF Suc.prems(1) this] show ?thesis .
  qed
qed

lemma forEach_from_total:
  assumes step: "\<And>x h. I h \<Longrightarrow> x \<in> set (arrs h a) \<Longrightarrow> \<exists>h'. f x h = Some h' \<and> I h'"
    and "I h"
  shows "\<exists>h'. forEach_from k r a f h = Some h' \<and> I h'"
  using assms(2)
proof (induction r arbitrary: k h)
  case 0
  then show ?case by simp
next
  case (Suc r)
  show ?case
  proof (cases "k < length (arrs h a)")
    case True
    then have "arrs h a ! k \<in> set (arrs h a)" by simp
    from step [OF Suc.prems this] obtain h1 where f: "f (arrs h a ! k) h = Some h1" and "I h1"
      by blast
    from Suc.IH [OF \<open>I h1\<close>, of "Suc k"] True f show ?thesis by simp
  next
    case False
    with Suc.IH [OF Suc.prems, of "Suc k"] show ?thesis by simp
  qed
qed

lemma destroy_Suc_unfold:
  assumes "destroy (Suc n) i h = Some h'"
  obtains h1 h2 where
    "h1 = detach i h"
    "forEach_from 0 (length (arrs h1 (children (injs h1 i)))) (children (injs h1 i)) (destroy n) h1 = Some h2"
    "h' = clear_providers i (clear_parent i (reset_children i h2))"
  using assms by (auto simp: Let_def forEach_def split: option.splits)

lemma destroy_Suc_Some:
  assumes "forEach_from 0 (length (arrs (detach i h) (children (injs (detach i h) i))))
             (children (injs (detach i h) i)) (destroy n) (detach i h) = Some h2"
  shows "destroy (Suc n) i h = Some (clear_providers i (clear_parent i (reset_children i h2)))"
  using assms by (simp add: Let_def forEach_def)

lemma removeChild_injs [simp]: "injs (removeChild p c h) = injs h"
  by (simp add: removeChild_def)

lemma shrinks_unlink:
  "shrinks h (detach i h)"
  by (simp add: detach_def shrinks_refl shrinks_removeChild split: option.splits)

lemma injs_unlink [simp]:
  "injs (detach i h) = injs h"
  by (simp add: detach_def split: option.splits)

lemma shrinks_destroy: "destroy n i h = Some h' \<Longrightarrow> shrinks h h'"
proof (induction n arbitrary: i h h')
  case 0
  then show ?case by simp
next
  case (Suc n)
  from Suc.prems obtain h1 h2 where
    h1: "h1 = detach i h"
    and loop: "forEach_from 0 (length (arrs h1 (children (injs h1 i)))) (children (injs h1 i)) (destroy n) h1 = Some h2"
    and h': "h' = clear_providers i (clear_parent i (reset_children i h2))"
    by (rule destroy_Suc_unfold)
  have "shrinks h h1" unfolding h1 by (rule shrinks_unlink)
  moreover have "shrinks h1 h2"
  proof (rule forEach_from_inv [where I = "shrinks h1", OF _ shrinks_refl loop])
    fix x g g'
    assume "shrinks h1 g" "destroy n x g = Some g'"
    then show "shrinks h1 g'" using Suc.IH shrinks_trans by blast
  qed
  moreover have "shrinks h2 h'" unfolding h' by (rule shrinks_final)
  ultimately show ?case using shrinks_trans by blast
qed

lemma final_injs_other:
  "j \<noteq> i \<Longrightarrow> injs (clear_providers i (clear_parent i (reset_children i h))) j = injs h j"
  by (simp add: clear_providers_def clear_parent_def reset_children_def)

lemma wf_heapD:
  assumes "wf_heap h" "j < next_inj h"
  shows "\<forall>x \<in> set (kids h j). j < x \<and> x < next_inj h"
proof -
  from assms(2) have "j \<in> {0..<next_inj h}" by simp
  with assms(1) show ?thesis unfolding wf_heap_def by blast
qed

lemma loop_inv_start:
  assumes "wf_heap h" "i < next_inj h"
  shows "loop_inv h (children (injs h i)) i h"
proof -
  have "\<forall>x \<in> set (arrs h (children (injs h i))). i < x \<and> x < next_inj h"
    using wf_heapD [OF assms] unfolding kids_def .
  with assms(1) show ?thesis unfolding loop_inv_def by blast
qed

lemma loop_invD:
  assumes "loop_inv h1 a i g"
  shows "wf_heap g" and "next_inj g = next_inj h1"
    and "x \<in> set (arrs g a) \<Longrightarrow> i < x \<and> x < next_inj h1"
    and "j \<le> i \<Longrightarrow> injs g j = injs h1 j"
  using assms unfolding loop_inv_def by blast+

lemma loop_inv_step:
  assumes inv: "loop_inv h1 a i g" and x: "x \<in> set (arrs g a)" and d: "destroy n x g = Some g'"
    and frame: "\<And>i h h'. wf_heap h \<Longrightarrow> i < next_inj h \<Longrightarrow> destroy n i h = Some h' \<Longrightarrow> \<forall>j<i. injs h' j = injs h j"
  shows "loop_inv h1 a i g'"
proof -
  note wf = loop_invD(1) [OF inv] and nx = loop_invD(2) [OF inv]
  from loop_invD(3) [OF inv x] have lt: "i < x" "x < next_inj h1" by simp_all
  from shrinks_destroy [OF d] have sh: "shrinks g g'" .
  from lt nx have "x < next_inj g" by simp
  from frame [OF wf this d] have fr: "\<forall>j<x. injs g' j = injs g j" .
  have 1: "\<forall>j \<le> i. injs g' j = injs h1 j"
  proof (intro allI impI)
    fix j assume j: "j \<le> i"
    with lt have "j < x" by simp
    with fr have "injs g' j = injs g j" by blast
    also have "\<dots> = injs h1 j" using j by (rule loop_invD(4) [OF inv])
    finally show "injs g' j = injs h1 j" .
  qed
  from sh wf have 2: "wf_heap g'" by (rule wf_heap_shrinks [rotated])
  from sh nx have 3: "next_inj g' = next_inj h1" by (simp add: shrinks_def)
  have 4: "\<forall>y \<in> set (arrs g' a). i < y \<and> y < next_inj h1"
  proof
    fix y assume "y \<in> set (arrs g' a)"
    with sh have "y \<in> set (arrs g a)" unfolding shrinks_def by blast
    then show "i < y \<and> y < next_inj h1" by (rule loop_invD(3) [OF inv])
  qed
  from 1 2 3 4 show ?thesis unfolding loop_inv_def by blast
qed

lemma destroy_frame:
  "wf_heap h \<Longrightarrow> i < next_inj h \<Longrightarrow> destroy n i h = Some h' \<Longrightarrow> \<forall>j<i. injs h' j = injs h j"
proof (induction n arbitrary: i h h')
  case 0
  then show ?case by simp
next
  case (Suc n)
  from Suc.prems(3) obtain h1 h2 where
    h1: "h1 = detach i h"
    and loop: "forEach_from 0 (length (arrs h1 (children (injs h1 i)))) (children (injs h1 i)) (destroy n) h1 = Some h2"
    and h': "h' = clear_providers i (clear_parent i (reset_children i h2))"
    by (rule destroy_Suc_unfold)
  have sh: "shrinks h h1" unfolding h1 by (rule shrinks_unlink)
  have inj1: "injs h1 = injs h" unfolding h1 by simp
  from sh Suc.prems(1) have wf1: "wf_heap h1" by (rule wf_heap_shrinks [rotated])
  from sh Suc.prems(2) have lt1: "i < next_inj h1" by (simp add: shrinks_def)
  have "loop_inv h1 (children (injs h1 i)) i h2"
  proof (rule forEach_from_inv [where I = "loop_inv h1 (children (injs h1 i)) i", OF _ _ loop])
    show "loop_inv h1 (children (injs h1 i)) i h1" using wf1 lt1 by (rule loop_inv_start)
  next
    fix x g g'
    assume "loop_inv h1 (children (injs h1 i)) i g" "x \<in> set (arrs g (children (injs h1 i)))"
      "destroy n x g = Some g'"
    then show "loop_inv h1 (children (injs h1 i)) i g'"
      using Suc.IH by (rule loop_inv_step)
  qed
  then have "\<forall>j\<le>i. injs h2 j = injs h j" using loop_invD(4) inj1 by metis
  then show ?case unfolding h' by (simp add: final_injs_other)
qed

lemma destroy_returns:
  "wf_heap h \<Longrightarrow> i < next_inj h \<Longrightarrow> next_inj h - i \<le> n \<Longrightarrow> \<exists>h'. destroy n i h = Some h'"
proof (induction n arbitrary: i h)
  case 0
  then show ?case by simp
next
  case (Suc n)
  define h1 where "h1 = detach i h"
  have sh: "shrinks h h1" unfolding h1_def by (rule shrinks_unlink)
  from sh Suc.prems(1) have wf1: "wf_heap h1" by (rule wf_heap_shrinks [rotated])
  from sh Suc.prems(2) have lt1: "i < next_inj h1" by (simp add: shrinks_def)
  from sh Suc.prems(3) have fuel: "next_inj h1 - i \<le> Suc n" by (simp add: shrinks_def)
  let ?a = "children (injs h1 i)"
  have "\<exists>h2. forEach_from 0 (length (arrs h1 ?a)) ?a (destroy n) h1 = Some h2 \<and> loop_inv h1 ?a i h2"
  proof (rule forEach_from_total [where I = "loop_inv h1 ?a i"])
    show "loop_inv h1 ?a i h1" using wf1 lt1 by (rule loop_inv_start)
  next
    fix x g
    assume inv: "loop_inv h1 ?a i g" and x: "x \<in> set (arrs g ?a)"
    note wfg = loop_invD(1) [OF inv] and eq = loop_invD(2) [OF inv]
    from loop_invD(3) [OF inv x] have lt: "i < x" "x < next_inj h1" by simp_all
    from lt eq have xg: "x < next_inj g" by simp
    from lt eq fuel have "next_inj g - x \<le> n" by arith
    from Suc.IH [OF wfg xg this] obtain g' where d: "destroy n x g = Some g'" ..
    have "loop_inv h1 ?a i g'"
      by (rule loop_inv_step [OF inv x d]) (rule destroy_frame)
    with d show "\<exists>g'. destroy n x g = Some g' \<and> loop_inv h1 ?a i g'" by blast
  qed
  then obtain h2 where loop: "forEach_from 0 (length (arrs h1 ?a)) ?a (destroy n) h1 = Some h2"
    by blast
  from destroy_Suc_Some [OF loop [unfolded h1_def]] show ?case by blast
qed

lemma destroy_self:
  "destroy n i h = Some h' \<Longrightarrow>
     providers (injs h' i) = Map.empty \<and> parent (injs h' i) = None \<and> kids h' i = []"
  by (cases n) (auto simp: Let_def clear_providers_def clear_parent_def reset_children_def kids_def
      split: option.splits)

subsection \<open>The example tree\<close>

lemmas family_defs = family_def empty_heap_def new_Injector_def setChild_def set_provider_def kids_def

lemma family_facts:
  "next_inj family = 3"
  "kids family 0 = [1, 2]" "kids family (Suc 0) = []" "kids family 2 = []"
  "parent (injs family 0) = None" "parent (injs family (Suc 0)) = Some 0" "parent (injs family 2) = Some 0"
  "uid (injs family 0) = ''uid-root''" "uid (injs family 2) = ''uid-c1''"
  "providers (injs family 0) (KStr ''k'') = Some (Value (JNum 0))"
  "providers (injs family 2) (KStr ''k'') = Some (Value (JNum 2))"
  by (simp_all add: family_defs)

lemma wf_family: "wf_heap family"
  by code_simp

lemma wf_parent:
  assumes "wf_heap h" "j < next_inj h" "parent (injs h j) = Some p"
  shows "p < j"
proof -
  from assms(2) have "j \<in> {0..<next_inj h}" by simp
  with assms(1) have "case parent (injs h j) of None \<Rightarrow> True | Some p \<Rightarrow> p < j"
    unfolding wf_heap_def by blast
  with assms(3) show ?thesis by simp
qed

subsection \<open>The operations keep the tree\<close>

lemma wf_heapI:
  assumes "\<And>j x. j < next_inj h \<Longrightarrow> x \<in> set (kids h j) \<Longrightarrow> j < x \<and> x < next_inj h"
    and "\<And>j p. j < next_inj h \<Longrightarrow> parent (injs h j) = Some p \<Longrightarrow> p < j"
  shows "wf_heap h"
  unfolding wf_heap_def
proof (intro ballI conjI)
  fix j x assume "j \<in> {0..<next_inj h}" "x \<in> set (kids h j)"
  with assms(1) [of j x] show "j < x" "x < next_inj h" by simp_all
next
  fix j assume "j \<in> {0..<next_inj h}"
  with assms(2) [of j] show "case parent (injs h j) of None \<Rightarrow> True | Some p \<Rightarrow> p < j"
    by (cases "parent (injs h j)") simp_all
qed

lemma wf_destroy: "wf_heap h \<Longrightarrow> destroy n i h = Some h' \<Longrightarrow> wf_heap h'"
  by (rule wf_heap_shrinks [OF _ shrinks_destroy])

lemma wf_empty_heap: "wf_heap empty_heap"
  by (rule wf_heapI) (simp_all add: empty_heap_def)

lemma set_provider_shape:
  "next_inj (set_provider i k v h) = next_inj h" "kids (set_provider i k v h) j = kids h j"
  "parent (injs (set_provider i k v h) j) = parent (injs h j)"
  by (simp_all add: set_provider_def kids_def)

lemma wf_set_provider:
  assumes "wf_heap h"
  shows "wf_heap (set_provider i k v h)"
proof (rule wf_heapI)
  fix j x assume "j < next_inj (set_provider i k v h)" "x \<in> set (kids (set_provider i k v h) j)"
  then have lt: "j < next_inj h" and x: "x \<in> set (kids h j)" by (simp_all add: set_provider_shape)
  from wf_heapD [OF assms lt] x show "j < x \<and> x < next_inj (set_provider i k v h)"
    by (simp add: set_provider_shape)
next
  fix j p assume "j < next_inj (set_provider i k v h)" "parent (injs (set_provider i k v h) j) = Some p"
  then have "j < next_inj h" "parent (injs h j) = Some p" by (simp_all add: set_provider_shape)
  with assms show "p < j" by (rule wf_parent)
qed

lemma wf_new_Injector:
  assumes "wf_heap h" and "case p of None \<Rightarrow> True | Some q \<Rightarrow> q < next_inj h"
  shows "wf_heap (new_Injector u p h)"
proof (rule wf_heapI)
  fix j x assume j: "j < next_inj (new_Injector u p h)" and x: "x \<in> set (kids (new_Injector u p h) j)"
  show "j < x \<and> x < next_inj (new_Injector u p h)"
  proof (cases "j = next_inj h")
    case True
    with x show ?thesis by (simp add: new_Injector_def kids_def)
  next
    case False
    with j have lt: "j < next_inj h" by (simp add: new_Injector_def)
    from x False have "x \<in> set (kids h j)"
      by (simp add: new_Injector_def kids_def split: if_splits)
    with wf_heapD [OF assms(1) lt] show ?thesis by (auto simp: new_Injector_def)
  qed
next
  fix j q assume j: "j < next_inj (new_Injector u p h)"
    and q: "parent (injs (new_Injector u p h) j) = Some q"
  show "q < j"
  proof (cases "j = next_inj h")
    case True
    with q assms(2) show ?thesis by (simp add: new_Injector_def)
  next
    case False
    with j have lt: "j < next_inj h" by (simp add: new_Injector_def)
    from q False have "parent (injs h j) = Some q" by (simp add: new_Injector_def)
    with assms(1) lt show ?thesis by (rule wf_parent)
  qed
qed

lemma wf_setChild:
  assumes "wf_heap h" and "p < c" "c < next_inj h"
    and own: "\<And>j. j < next_inj h \<Longrightarrow> children (injs h j) = children (injs h p) \<Longrightarrow> j = p"
  shows "wf_heap (setChild p c h)"
proof (rule wf_heapI)
  fix j x assume j: "j < next_inj (setChild p c h)" and x: "x \<in> set (kids (setChild p c h) j)"
  from j have lt: "j < next_inj h" by (simp add: setChild_def)
  show "j < x \<and> x < next_inj (setChild p c h)"
  proof (cases "children (injs h j) = children (injs h p)")
    case True
    with own [OF lt] have jp: "j = p" by simp
    with x have "x \<in> set (kids h p) \<or> x = c" by (auto simp: setChild_def kids_def)
    moreover from lt jp have "p < next_inj h" by simp
    note wf_heapD [OF assms(1) this]
    ultimately show ?thesis using jp assms(2,3)
      by (auto simp: setChild_def)
  next
    case False
    with x have "x \<in> set (kids h j)" by (simp add: setChild_def kids_def)
    with wf_heapD [OF assms(1) lt] show ?thesis by (auto simp: setChild_def)
  qed
next
  fix j q assume "j < next_inj (setChild p c h)" "parent (injs (setChild p c h) j) = Some q"
  then have "j < next_inj h" "parent (injs h j) = Some q" by (simp_all add: setChild_def)
  with assms(1) show "q < j" by (rule wf_parent)
qed

subsection \<open>Lookup\<close>

lemma get_local: "providers (injs h i) k = Some v \<Longrightarrow> get toString h i k Class = Some (Inr v)"
  by (subst get.simps) (simp add: has_def)

lemma get_root:
  "providers (injs h i) k = None \<Longrightarrow> parent (injs h i) = None \<Longrightarrow>
     get toString h i k Class = Some (Inl (no_provider toString k Class (uid (injs h i))))"
  by (subst get.simps) (simp add: has_def)

lemma get_parent:
  "providers (injs h i) k = None \<Longrightarrow> parent (injs h i) = Some p \<Longrightarrow>
     get toString h i k Class = get toString h p k Class"
  by (subst get.simps) (simp add: has_def)

lemma get_unbound_chain:
  assumes "wf_heap h"
  shows "i < next_inj h \<Longrightarrow> i \<le> n \<Longrightarrow> \<forall>j \<in> set (ancestors_upto n h i). \<not> has h j k \<Longrightarrow>
     get toString h i k Class =
       Some (Inl (no_provider toString k Class (uid (injs h (last (ancestors_upto n h i))))))"
proof (induction n arbitrary: i)
  case 0
  then have i: "i = 0" by simp
  have "parent (injs h 0) = None"
  proof (cases "parent (injs h 0)")
    case (Some p)
    from wf_parent [OF assms _ Some] 0(1) i show ?thesis by simp
  qed simp
  with 0 i show ?case by (simp add: get_root has_def)
next
  case (Suc n)
  from Suc.prems(3) have nb: "providers (injs h i) k = None"
    by (auto simp: has_def split: option.splits)
  show ?case
  proof (cases "parent (injs h i)")
    case None
    with nb show ?thesis by (simp add: get_root)
  next
    case (Some p)
    from wf_parent [OF assms Suc.prems(1) Some] have "p < i" .
    with Suc.prems have "p < next_inj h" "p \<le> n" by simp_all
    moreover from Suc.prems(3) Some have "\<forall>j \<in> set (ancestors_upto n h p). \<not> has h j k" by simp
    ultimately have "get toString h p k Class =
       Some (Inl (no_provider toString k Class (uid (injs h (last (ancestors_upto n h p))))))"
      by (rule Suc.IH)
    moreover have "ancestors_upto n h p \<noteq> []" by (cases n) (simp_all split: option.splits)
    ultimately show ?thesis using nb Some by (simp add: get_parent)
  qed
qed

lemma no_provider_message:
  "\<exists>msg. no_provider toString k Class u = Error msg \<and>
     sublist (key_text toString k) msg \<and>
     (\<forall>c. Class = Some c \<longrightarrow> sublist (class_text c) msg) \<and>
     sublist u msg"
proof (cases Class)
  case None
  have "sublist (key_text toString k) (''No provider for '' @ key_text toString k @ ('', injector: '' @ u))"
    by (rule sublist_appendI)
  moreover have "sublist u ((''No provider for '' @ key_text toString k @ '', injector: '') @ u @ [])"
    by (rule sublist_appendI)
  ultimately show ?thesis using None by (simp add: no_provider_def)
next
  case (Some c)
  have "sublist (key_text toString k)
     (''No provider for '' @ key_text toString k @ ('' on class '' @ class_text c @ '' , injector: '' @ u))"
    by (rule sublist_appendI)
  moreover have "sublist (class_text c)
     ((''No provider for '' @ key_text toString k @ '' on class '') @ class_text c @ ('' , injector: '' @ u))"
    by (rule sublist_appendI)
  moreover have "sublist u
     ((''No provider for '' @ key_text toString k @ '' on class '' @ class_text c @ '' , injector: '') @ u @ [])"
    by (rule sublist_appendI)
  ultimately show ?thesis using Some by (simp add: no_provider_def)
qed

lemma ancestors_family_2: "ancestors family 2 = [2, 0]"
  by code_simp

section \<open>Claims about the provider registry\<close>

text \<open>
  Claim C1. Destroying a parent with N live children destroys all N children, so that all
  of them are in destroyed state afterwards. This fails on the code: each child's
  \<open>destroy\<close> removes the child from the very array that the parent's \<open>forEach\<close> is walking,
  so the next child moves to the index just visited and is skipped. With the two children
  of the example tree, \<open>destroy\<close> on the root returns, the root and the first child are in
  destroyed state, and the second child keeps its binding and its parent link.
\<close>

theorem destroy_leaves_second_child:
  "kids family 0 = [1, 2] \<and>
   destroy 2 0 family \<noteq> None \<and>
   destroyed (the (destroy 2 0 family)) 0 \<and>
   destroyed (the (destroy 2 0 family)) 1 \<and>
   \<not> destroyed (the (destroy 2 0 family)) 2 \<and>
   parent (injs (the (destroy 2 0 family)) 2) = Some 0 \<and>
   providers (injs (the (destroy 2 0 family)) 2) (KStr ''k'') = Some (Value (JNum 2))"
  by (simp add: family_defs forEach_def detach_def removeChild_def splice_js_def
      reset_children_def clear_parent_def clear_providers_def destroyed_def numeral_2_eq_2)

text \<open>
  Claim C4, as amended. In a container tree, when neither the container nor any of its
  ancestors binds the key, \<open>get\<close> throws an error whose message names the key, names the
  requesting class when one was supplied, and contains the identifier of the topmost
  ancestor, where the lookup stops (the container itself when it has no parent).
\<close>

theorem get_no_provider:
  assumes "wf_heap h" "i < next_inj h" "\<forall>j \<in> set (ancestors h i). \<not> has h j k"
  shows "\<exists>msg. get toString h i k Class = Some (Inl (Error msg)) \<and>
     sublist (key_text toString k) msg \<and>
     (\<forall>c. Class = Some c \<longrightarrow> sublist (class_text c) msg) \<and>
     sublist (uid (injs h (last (ancestors h i)))) msg"
proof -
  from assms(3) have "\<forall>j \<in> set (ancestors_upto i h i). \<not> has h j k" by (simp add: ancestors_def)
  from get_unbound_chain [OF assms(1,2) le_refl this]
  have "get toString h i k Class =
     Some (Inl (no_provider toString k Class (uid (injs h (last (ancestors h i))))))"
    by (simp add: ancestors_def)
  with no_provider_message [of toString k Class "uid (injs h (last (ancestors h i)))"]
  show ?thesis by auto
qed

theorem get_no_provider_witness:
  "\<exists>msg. get id family 2 (KFun (Func 7 ''Foo'')) None = Some (Inl (Error msg)) \<and>
     sublist ''Foo'' msg \<and> sublist ''uid-root'' msg"
proof -
  have "\<forall>j \<in> set (ancestors family 2). \<not> has family j (KFun (Func 7 ''Foo''))"
    by (simp add: ancestors_family_2 has_def) (simp add: family_defs)
  from get_no_provider [OF wf_family _ this, of id None]
  show ?thesis by (simp add: family_facts ancestors_family_2 key_text_def)
qed

text \<open>
  Claim C4 as stated asks for the identifier of the container on which \<open>get\<close> was called.
  In the example tree the second child and the root have no binding for the class \<open>Foo\<close>;
  \<open>get\<close> on the child throws a message with the identifier of the root, which does not
  contain the child's.
\<close>

theorem get_names_calling_injector_counterexample:
  "\<not> has family 2 (KFun (Func 7 ''Foo'')) \<and> \<not> has family 0 (KFun (Func 7 ''Foo'')) \<and>
   parent (injs family 2) = Some 0 \<and> parent (injs family 0) = None \<and>
   uid (injs family 2) = ''uid-c1'' \<and>
   get id family 2 (KFun (Func 7 ''Foo'')) None =
     Some (Inl (Error ''No provider for Foo, injector: uid-root'')) \<and>
   \<not> sublist ''uid-c1'' ''No provider for Foo, injector: uid-root''"
proof -
  have nb: "providers (injs family 2) (KFun (Func 7 ''Foo'')) = None"
    "providers (injs family 0) (KFun (Func 7 ''Foo'')) = None"
    by (simp_all add: family_defs)
  have "get id family 2 (KFun (Func 7 ''Foo'')) None =
     Some (Inl (Error ''No provider for Foo, injector: uid-root''))"
    by (simp add: get_parent [OF nb(1) family_facts(7)] get_root [OF nb(2) family_facts(5)]
        no_provider_def key_text_def family_facts)
  moreover have "\<not> sublist ''uid-c1'' ''No provider for Foo, injector: uid-root''"
    by code_simp
  ultimately show ?thesis by (simp add: has_def nb family_facts)
qed

text \<open>
  Claim C5. In a container tree, for a key bound both in a child and in its parent, \<open>get\<close>
  on the child returns the child's binding; \<open>destroy\<close> on the child returns, and \<open>get\<close> on
  the parent afterwards still returns the parent's binding.
\<close>

theorem shadowing:
  assumes "wf_heap h" "c < next_inj h" "parent (injs h c) = Some p"
    and "providers (injs h c) k = Some vc" "providers (injs h p) k = Some vp"
  shows "get toString h c k Class = Some (Inr vc) \<and>
     (\<exists>n h'. destroy n c h = Some h') \<and>
     (\<forall>n h'. destroy n c h = Some h' \<longrightarrow> get toString h' p k Class = Some (Inr vp))"
proof (intro conjI allI impI)
  show "get toString h c k Class = Some (Inr vc)" using assms(4) by (rule get_local)
next
  from destroy_returns [OF assms(1,2) le_refl] show "\<exists>n h'. destroy n c h = Some h'" by blast
next
  fix n h'
  assume d: "destroy n c h = Some h'"
  from wf_parent [OF assms(1,2,3)] have "p < c" .
  with destroy_frame [OF assms(1,2) d] have "injs h' p = injs h p" by blast
  with assms(5) have "providers (injs h' p) k = Some vp" by simp
  then show "get toString h' p k Class = Some (Inr vp)" by (rule get_local)
qed

theorem shadowing_witness:
  "get id family 2 (KStr ''k'') None = Some (Inr (Value (JNum 2))) \<and>
   (\<exists>n h'. destroy n 2 family = Some h' \<and>
      get id h' 0 (KStr ''k'') None = Some (Inr (Value (JNum 0))))"
proof -
  have "2 < next_inj family" by (simp add: family_facts)
  note s = shadowing [OF wf_family this family_facts(7) family_facts(11) family_facts(10),
      of id None]
  from s obtain n h' where d: "destroy n 2 family = Some h'" by blast
  with s have "get id h' 0 (KStr ''k'') None = Some (Inr (Value (JNum 0)))" by blast
  with s d show ?thesis by blast
qed

text \<open>
  Claim C10. After \<open>destroy\<close> has completed on a container, \<open>get\<close> on it throws the
  no-provider error for every key, with the container's own identifier: the local map is
  empty and the parent link is cut, so neither a former binding nor a former parent
  answers.
\<close>

theorem get_after_destroy:
  assumes "destroy n i h = Some h'"
  shows "get toString h' i k Class =
     Some (Inl (no_provider toString k Class (uid (injs h i))))"
proof -
  from destroy_self [OF assms]
  have "providers (injs h' i) k = None" and "parent (injs h' i) = None" by simp_all
  then have "get toString h' i k Class =
     Some (Inl (no_provider toString k Class (uid (injs h' i))))"
    by (rule get_root)
  moreover from shrinks_destroy [OF assms] have "uid (injs h' i) = uid (injs h i)"
    by (simp add: shrinks_def)
  ultimately show ?thesis by simp
qed

theorem get_after_destroy_witness:
  "providers (injs family 2) (KStr ''k'') = Some (Value (JNum 2)) \<and>
   parent (injs family 2) = Some 0 \<and>
   providers (injs family 0) (KStr ''k'') = Some (Value (JNum 0)) \<and>
   (\<exists>h'. destroy 1 2 family = Some h' \<and>
      get id h' 2 (KStr ''k'') None = Some (Inl (Error ''No provider for k, injector: uid-c1'')))"
proof -
  have "next_inj family - 2 \<le> 1" "2 < next_inj family" by (simp_all add: family_facts)
  from destroy_returns [OF wf_family this(2,1)]
  obtain h' where d: "destroy 1 2 family = Some h'" ..
  from get_after_destroy [OF d, of id "KStr ''k''" None]
  have "get id h' 2 (KStr ''k'') None = Some (Inl (Error ''No provider for k, injector: uid-c1''))"
    by (simp add: no_provider_def key_text_def family_facts)
  with d show ?thesis by (simp add: family_facts)
qed

section \<open>Properties of createAndResolve\<close>

lemma bind_res_Inr:
  assumes "bind_res r f = Some (Inr y)"
  obtains x where "r = Some (Inr x)" "f x = Some (Inr y)"
  using assms by (auto simp: bind_res_def split: option.splits sum.splits)

lemma set_provider_trace [simp]:
  "trace (set_provider i k v h) = trace h" "next_obj (set_provider i k v h) = next_obj h"
  by (simp_all add: set_provider_def)

lemma define_all_trace:
  "define_all X this oid items h = Some (Inr h') \<Longrightarrow>
     \<exists>defs. trace h' = trace h @ defs \<and>
       (\<forall>d \<in> set defs. \<exists>k b w. d = DefineProperty oid k b w) \<and>
       length defs = length items \<and> next_obj h' = next_obj h"
proof (induction items arbitrary: h)
  case Nil
  then show ?case by simp
next
  case (Cons item items)
  from Cons.prems obtain v where
    rest: "define_all X this oid items
       (h\<lparr>trace := trace h @ [DefineProperty oid (ik_key item) v (isMutable item)]\<rparr>) = Some (Inr h')"
    by (auto elim: bind_res_Inr)
  from Cons.IH [OF rest] obtain defs where
    "trace h' = (trace h @ [DefineProperty oid (ik_key item) v (isMutable item)]) @ defs"
    "\<forall>d \<in> set defs. \<exists>k b w. d = DefineProperty oid k b w"
    "length defs = length items" "next_obj h' = next_obj h"
    by auto
  then show ?case
    by (intro exI [of _ "DefineProperty oid (ik_key item) v (isMutable item) # defs"]) simp
qed

lemma get_all_length:
  "get_all ts h this ks Class = Some (Inr vs) \<Longrightarrow> length vs = length ks"
proof (induction ks arbitrary: vs)
  case Nil
  then show ?case by simp
next
  case (Cons k ks)
  from Cons.prems obtain v vs' where "get_all ts h this ks Class = Some (Inr vs')" "vs = v # vs'"
    by (auto elim!: bind_res_Inr)
  with Cons.IH show ?case by simp
qed

lemma instantiate_trace:
  assumes "instantiate X this provider h = Some (Inr (v, h'))"
  shows "\<exists>cls args defs.
     v = Instance (next_obj h) \<and> useClass provider = Some cls \<and>
     trace h' = trace h @ Construct (next_obj h) cls args # defs @ hook_events X cls (next_obj h) \<and>
     (\<forall>d \<in> set defs. \<exists>k b w. d = DefineProperty (next_obj h) k b w) \<and>
     length args = length (getConstructorInjectKeys X (provide provider)) \<and>
     length defs = (case getConstructorPrototypeKeys X cls of Some pk \<Rightarrow> length pk | None \<Rightarrow> 0) \<and>
     next_obj h' = Suc (next_obj h)"
proof -
  let ?oid = "next_obj h"
  from assms obtain args where
    args: "get_all (core_toString X) h this (getConstructorInjectKeys X (provide provider))
             (Some provider) = Some (Inr args)" and
    body: "(case useClass provider of
       None \<Rightarrow> Some (Inl (TypeError ''undefined is not a constructor''))
     | Some cls \<Rightarrow>
         (let oid = next_obj h;
              h1 = h\<lparr>trace := trace h @ [Construct oid cls args], next_obj := Suc oid\<rparr>
          in bind_res (case getConstructorPrototypeKeys X cls of
                         Some protoKeys \<Rightarrow> define_all X this oid protoKeys h1
                       | None \<Rightarrow> Some (Inr h1)) (\<lambda>h2.
             let h3 = set_provider this (provide provider) (Instance oid) h2;
                 h4 = (if hasOwn_afterConstruct X cls \<and> afterConstruct_isFunction X cls
                       then h3\<lparr>trace := trace h3 @ [AfterConstruct oid []]\<rparr>
                       else h3);
                 h5 = set_provider this (KFun Injector_class) (InjectorRef this) h4
             in Some (Inr (Instance oid, h5))))) = Some (Inr (v, h'))"
    unfolding instantiate_def by (rule bind_res_Inr)
  then obtain cls where cls: "useClass provider = Some cls" by (cases "useClass provider") simp_all
  let ?h1 = "h\<lparr>trace := trace h @ [Construct ?oid cls args], next_obj := Suc ?oid\<rparr>"
  from body cls obtain h2 where
    props: "(case getConstructorPrototypeKeys X cls of
               Some protoKeys \<Rightarrow> define_all X this ?oid protoKeys ?h1
             | None \<Rightarrow> Some (Inr ?h1)) = Some (Inr h2)"
    and res: "v = Instance ?oid"
      "h' = set_provider this (KFun Injector_class) (InjectorRef this)
         (if hasOwn_afterConstruct X cls \<and> afterConstruct_isFunction X cls
          then (set_provider this (provide provider) (Instance ?oid) h2)
                 \<lparr>trace := trace (set_provider this (provide provider) (Instance ?oid) h2) @ [AfterConstruct ?oid []]\<rparr>
          else set_provider this (provide provider) (Instance ?oid) h2)"
    by (auto simp: Let_def elim!: bind_res_Inr)
  have "\<exists>defs. trace h2 = trace ?h1 @ defs \<and>
       (\<forall>d \<in> set defs. \<exists>k b w. d = DefineProperty ?oid k b w) \<and>
       length defs = (case getConstructorPrototypeKeys X cls of Some pk \<Rightarrow> length pk | None \<Rightarrow> 0) \<and>
       next_obj h2 = next_obj ?h1"
  proof (cases "getConstructorPrototypeKeys X cls")
    case None
    with props show ?thesis by auto
  next
    case (Some protoKeys)
    with props have "define_all X this ?oid protoKeys ?h1 = Some (Inr h2)" by simp
    from define_all_trace [OF this] Some show ?thesis by auto
  qed
  then obtain defs where defs: "trace h2 = trace ?h1 @ defs"
    "\<forall>d \<in> set defs. \<exists>k b w. d = DefineProperty ?oid k b w" "next_obj h2 = next_obj ?h1"
    and len: "length defs = (case getConstructorPrototypeKeys X cls of Some pk \<Rightarrow> length pk | None \<Rightarrow> 0)"
    by blast
  note alen = get_all_length [OF args]
  from res(2) defs(1,3) have "trace h' = trace h @ Construct ?oid cls args # defs @ hook_events X cls ?oid"
    and "next_obj h' = Suc ?oid"
    by (simp_all add: hook_events_def)
  with res(1) cls defs(2) len alen show ?thesis by blast
qed

lemma fresh_instantiate:
  assumes "instantiate X this provider h = Some (Inr (v, h'))" and "fresh h"
  shows "fresh h'"
proof -
  from instantiate_trace [OF assms(1)] obtain cls args defs where
    t: "trace h' = trace h @ Construct (next_obj h) cls args # defs @ hook_events X cls (next_obj h)"
    and d: "\<forall>d \<in> set defs. \<exists>k b w. d = DefineProperty (next_obj h) k b w"
    and n: "next_obj h' = Suc (next_obj h)"
    by blast
  show ?thesis
    unfolding fresh_def
  proof
    fix e assume "e \<in> set (trace h')"
    with t consider "e \<in> set (trace h)" | "e = Construct (next_obj h) cls args" | "e \<in> set defs"
      | "e \<in> set (hook_events X cls (next_obj h))" by auto
    then show "obj_of e < next_obj h'"
    proof cases
      case 1
      with assms(2) n show ?thesis by (auto simp: fresh_def)
    next
      case 2
      with n show ?thesis by simp
    next
      case 3
      with d n show ?thesis by auto
    next
      case 4
      with n show ?thesis by (auto simp: hook_events_def split: if_splits)
    qed
  qed
qed

lemma fresh_set_provider: "fresh h \<Longrightarrow> fresh (set_provider i k v h)"
  by (simp add: fresh_def)

lemma fresh_resolve_all:
  assumes step: "\<And>item h v h'. f item h = Some (Inr (v, h')) \<Longrightarrow> fresh h \<Longrightarrow> fresh h'"
  shows "resolve_all f items h = Some (Inr h') \<Longrightarrow> fresh h \<Longrightarrow> fresh h'"
proof (induction items arbitrary: h)
  case Nil
  then show ?case by simp
next
  case (Cons item items)
  from Cons.prems(1) obtain r where r: "f item h = Some (Inr r)"
    and rest: "resolve_all f items (snd r) = Some (Inr h')"
    by (auto elim: bind_res_Inr)
  from r have "f item h = Some (Inr (fst r, snd r))" by simp
  from step [OF this Cons.prems(2)] have "fresh (snd r)" .
  from Cons.IH [OF rest this] show ?case .
qed

lemma createAndResolve_Suc:
  assumes "createAndResolve (Suc n) X this provider providerList h = Some (Inr (v, h'))"
  obtains h1 where
    "resolve_all (\<lambda>item. createAndResolve n X this item (getConstructorProviders X (provide item)))
       (mergeProviders X (getConstructorProviders X (provide provider)) providerList) h = Some (Inr h1)"
    "(case useValue provider of
        Some u \<Rightarrow>
          (let h2 = set_provider this (provide provider) (Value u) h1
           in bind_res (get (core_toString X) h2 this (provide provider) None) (\<lambda>b. Some (Inr (b, h2))))
      | None \<Rightarrow> instantiate X this provider h1) = Some (Inr (v, h'))"
  using assms by (auto simp: Let_def elim!: bind_res_Inr)

lemma fresh_createAndResolve:
  "createAndResolve n X this provider providerList h = Some (Inr (v, h')) \<Longrightarrow> fresh h \<Longrightarrow> fresh h'"
proof (induction n arbitrary: provider providerList h v h')
  case 0
  then show ?case by simp
next
  case (Suc n)
  from Suc.prems(1) obtain h1 where
    sub: "resolve_all (\<lambda>item. createAndResolve n X this item (getConstructorProviders X (provide item)))
       (mergeProviders X (getConstructorProviders X (provide provider)) providerList) h = Some (Inr h1)"
    and rest: "(case useValue provider of
        Some u \<Rightarrow>
          (let h2 = set_provider this (provide provider) (Value u) h1
           in bind_res (get (core_toString X) h2 this (provide provider) None) (\<lambda>b. Some (Inr (b, h2))))
      | None \<Rightarrow> instantiate X this provider h1) = Some (Inr (v, h'))"
    by (rule createAndResolve_Suc)
  have f1: "fresh h1"
    by (rule fresh_resolve_all [OF _ sub Suc.prems(2)]) (rule Suc.IH)
  show ?case
  proof (cases "useValue provider")
    case None
    with rest have "instantiate X this provider h1 = Some (Inr (v, h'))" by simp
    from fresh_instantiate [OF this f1] show ?thesis .
  next
    case (Some u)
    with rest have "h' = set_provider this (provide provider) (Value u) h1"
      by (auto simp: Let_def elim!: bind_res_Inr)
    with f1 show ?thesis by (simp add: fresh_set_provider)
  qed
qed

lemma run_foo:
  "\<exists>h'. createAndResolve 2 example_externals 0 foo_provider [] root_only = Some (Inr (Instance 0, h'))"
  by (simp add: numeral_2_eq_2 example_externals_def foo_provider_def config_provider_def
      root_only_def new_Injector_def empty_heap_def Let_def bind_res_def instantiate_def
      set_provider_def get.simps has_def Foo_def)

lemma run_bar:
  "\<exists>h'. createAndResolve 2 example_externals 0 bar_provider [config_provider] root_only =
     Some (Inr (Instance 0, h'))"
  by (simp add: numeral_2_eq_2 example_externals_def bar_provider_def config_provider_def
      root_only_def new_Injector_def empty_heap_def Let_def bind_res_def instantiate_def
      set_provider_def get.simps has_def Foo_def Bar_def)

lemma fresh_root_only: "fresh root_only"
  by (simp add: fresh_def root_only_def new_Injector_def empty_heap_def)

section \<open>Claims about createAndResolve\<close>

text \<open>
  Claim C6. When \<open>createAndResolve\<close> resolves a class (a provider without \<open>useValue\<close>), the
  trace of the new instance is: its construction with one argument for each constructor
  key, then one property definition for each injected property, then, exactly when the
  prototype of the class has its own \<open>afterConstruct\<close> and that is a function, one call of
  the hook with no arguments, and nothing else. So a hook declared on the class runs once
  per resolution, after the constructor arguments and the injected properties, and a hook
  that is only inherited does not run.
\<close>

theorem afterConstruct_once:
  assumes "createAndResolve n X this provider providerList h = Some (Inr (v, h'))"
    and "useValue provider = None"
    and "fresh h"
  shows "\<exists>oid cls args defs.
     v = Instance oid \<and> useClass provider = Some cls \<and>
     filter (\<lambda>e. obj_of e = oid) (trace h') =
       Construct oid cls args # defs @
         (if hasOwn_afterConstruct X cls \<and> afterConstruct_isFunction X cls
          then [AfterConstruct oid []] else []) \<and>
     (\<forall>d \<in> set defs. \<exists>k b w. d = DefineProperty oid k b w) \<and>
     length args = length (getConstructorInjectKeys X (provide provider)) \<and>
     length defs = (case getConstructorPrototypeKeys X cls of Some pk \<Rightarrow> length pk | None \<Rightarrow> 0)"
proof (cases n)
  case 0
  with assms(1) show ?thesis by simp
next
  case (Suc m)
  from assms(1) have "createAndResolve (Suc m) X this provider providerList h = Some (Inr (v, h'))"
    unfolding Suc .
  then obtain h1 where
    sub: "resolve_all (\<lambda>item. createAndResolve m X this item (getConstructorProviders X (provide item)))
       (mergeProviders X (getConstructorProviders X (provide provider)) providerList) h = Some (Inr h1)"
    and rest: "(case useValue provider of
        Some u \<Rightarrow>
          (let h2 = set_provider this (provide provider) (Value u) h1
           in bind_res (get (core_toString X) h2 this (provide provider) None) (\<lambda>b. Some (Inr (b, h2))))
      | None \<Rightarrow> instantiate X this provider h1) = Some (Inr (v, h'))"
    by (rule createAndResolve_Suc)
  have f1: "fresh h1"
    by (rule fresh_resolve_all [OF _ sub assms(3)]) (rule fresh_createAndResolve)
  from rest assms(2) have "instantiate X this provider h1 = Some (Inr (v, h'))" by simp
  from instantiate_trace [OF this] obtain cls args defs where
    v: "v = Instance (next_obj h1)" and cls: "useClass provider = Some cls"
    and t: "trace h' = trace h1 @ Construct (next_obj h1) cls args # defs @ hook_events X cls (next_obj h1)"
    and d: "\<forall>d \<in> set defs. \<exists>k b w. d = DefineProperty (next_obj h1) k b w"
    and len: "length args = length (getConstructorInjectKeys X (provide provider))"
      "length defs = (case getConstructorPrototypeKeys X cls of Some pk \<Rightarrow> length pk | None \<Rightarrow> 0)"
    by blast
  let ?oid = "next_obj h1"
  from f1 have old: "filter (\<lambda>e. obj_of e = ?oid) (trace h1) = []"
    by (auto simp: fresh_def filter_empty_conv)
  from d have new: "filter (\<lambda>e. obj_of e = ?oid) defs = defs"
    by (auto simp: filter_id_conv)
  have hook: "filter (\<lambda>e. obj_of e = ?oid) (hook_events X cls ?oid) = hook_events X cls ?oid"
    by (simp add: hook_events_def)
  have "filter (\<lambda>e. obj_of e = ?oid) (trace h') =
      Construct ?oid cls args # defs @ hook_events X cls ?oid"
    by (simp add: t old new hook)
  with v cls d len show ?thesis unfolding hook_events_def by blast
qed

theorem afterConstruct_once_witness:
  "(\<exists>h' args defs.
      createAndResolve 2 example_externals 0 foo_provider [] root_only = Some (Inr (Instance 0, h')) \<and>
      filter (\<lambda>e. obj_of e = 0) (trace h') = Construct 0 Foo args # defs @ [AfterConstruct 0 []] \<and>
      length args = 1 \<and> length defs = 1) \<and>
   (\<exists>h' args defs.
      createAndResolve 2 example_externals 0 bar_provider [config_provider] root_only =
        Some (Inr (Instance 0, h')) \<and>
      filter (\<lambda>e. obj_of e = 0) (trace h') = Construct 0 Bar args # defs \<and>
      length args = 1 \<and> length defs = 1)"
proof
  from run_foo obtain h' where
    run: "createAndResolve 2 example_externals 0 foo_provider [] root_only = Some (Inr (Instance 0, h'))" ..
  have "useValue foo_provider = None" by (simp add: foo_provider_def)
  from afterConstruct_once [OF run this fresh_root_only] run
  show "\<exists>h' args defs.
      createAndResolve 2 example_externals 0 foo_provider [] root_only = Some (Inr (Instance 0, h')) \<and>
      filter (\<lambda>e. obj_of e = 0) (trace h') = Construct 0 Foo args # defs @ [AfterConstruct 0 []] \<and>
      length args = 1 \<and> length defs = 1"
    by (auto simp: foo_provider_def example_externals_def)
next
  from run_bar obtain h' where
    run: "createAndResolve 2 example_externals 0 bar_provider [config_provider] root_only =
       Some (Inr (Instance 0, h'))" ..
  have "useValue bar_provider = None" by (simp add: bar_provider_def)
  from afterConstruct_once [OF run this fresh_root_only] run
  show "\<exists>h' args defs.
      createAndResolve 2 example_externals 0 bar_provider [config_provider] root_only =
        Some (Inr (Instance 0, h')) \<and>
      filter (\<lambda>e. obj_of e = 0) (trace h') = Construct 0 Bar args # defs \<and>
      length args = 1 \<and> length defs = 1"
    by (auto simp: bar_provider_def example_externals_def Foo_def Bar_def)
qed

section \<open>Properties of the request orchestrator\<close>

lemma render_text:
  assumes "isString v \<or> instanceof_Buffer v"
  shows "render E v s =
    (Inr v, s\<lparr>logged := logged s @ [(InfoLevel, JStr ''Request.render'')],
              response_calls := response_calls s @
                [WriteHead (statusCode s) [(''Content-Type'', ''text/html'')], Write v, End]\<rparr>)"
  using assms by (simp add: render_def logger_def Let_def)

lemma render_other:
  assumes "\<not> (isString v \<or> instanceof_Buffer v)"
  shows "render E v s =
    (Inl (JHttpError 500 (JStr ''ResponseType must be string or buffer'')
            (JRecord [(''response'', v)]) (stack_trace E)),
     s\<lparr>logged := logged s @ [(InfoLevel, JStr ''Request.render''),
                              (ErrorLevel, JStr ''Invalid response type'')]\<rparr>)"
  using assms by (simp add: render_def logger_def Let_def new_HttpError_def)

lemma render_JStr:
  "render E (JStr t) s =
    (Inr (JStr t), s\<lparr>logged := logged s @ [(InfoLevel, JStr ''Request.render'')],
              response_calls := response_calls s @
                [WriteHead (statusCode s) [(''Content-Type'', ''text/html'')], Write (JStr t), End]\<rparr>)"
  by (simp add: render_text)

lemma mutating_iff:
  "(indexOf [POST, PATCH, PUT] m > - 1) = (m = POST \<or> m = PATCH \<or> m = PUT)"
  by (cases m) simp_all

lemma logger_fields [simp]:
  "isForwarded (logger l m s) = isForwarded s" "data (logger l m s) = data s"
  "statusCode (logger l m s) = statusCode s" "response_calls (logger l m s) = response_calls s"
  "response_once (logger l m s) = response_once s"
  "emitter_listeners (logger l m s) = emitter_listeners s" "emitted (logger l m s) = emitted s"
  "delivered (logger l m s) = delivered s" "logged (logger l m s) = logged s @ [(l, m)]"
  by (simp_all add: logger_def)

lemma attach_listeners_fields [simp]:
  "isForwarded (attach_listeners s) = isForwarded s" "data (attach_listeners s) = data s"
  "statusCode (attach_listeners s) = statusCode s"
  "response_calls (attach_listeners s) = response_calls s"
  "emitter_listeners (attach_listeners s) = emitter_listeners s"
  "emitted (attach_listeners s) = emitted s" "delivered (attach_listeners s) = delivered s"
  "logged (attach_listeners s) = logged s"
  by (simp_all add: attach_listeners_def)

lemma collect_body_mutating:
  assumes "route_method r = POST \<or> route_method r = PATCH \<or> route_method r = PUT"
    and "\<not> isForwarded s"
  shows "collect_body b r s =
    (if ended b then Fulfilled r else Pending,
     (logger InfoLevel (JStr ''Route.parseRequest'') s)\<lparr>data := data s @ chunks b\<rparr>)"
  using assms by (auto simp add: collect_body_def Let_def)

lemma collect_body_other:
  assumes "\<not> ((route_method r = POST \<or> route_method r = PATCH \<or> route_method r = PUT) \<and> \<not> isForwarded s)"
  shows "collect_body b r s = (Fulfilled r, logger InfoLevel (JStr ''Route.parseRequest'') s)"
  using assms by (auto simp add: collect_body_def Let_def mutating_iff)

lemma same_channels_refl: "same_channels s s"
  by (simp add: same_channels_def)

lemma same_channels_trans: "same_channels a b \<Longrightarrow> same_channels b c \<Longrightarrow> same_channels a c"
  by (simp add: same_channels_def)

lemma same_channels_logger: "same_channels s (logger l m s)"
  by (simp add: same_channels_def)

lemma same_channels_statusCode: "same_channels s (s\<lparr>statusCode := c\<rparr>)"
  by (simp add: same_channels_def)

lemma same_channels_render: "same_channels s (snd (render E v s))"
  by (simp add: render_def Let_def same_channels_def logger_def)

lemma snd_settle: "snd (settle (x, s)) = s"
  by (cases x) simp_all

lemma snd_settle_render: "snd (settle (render E v s)) = snd (render E v s)"
  by (cases "render E v s") (simp add: snd_settle)

lemma same_channels_render_error: "same_channels s (snd (render_error E e s))"
  by (simp add: render_error_def snd_settle_render same_channels_render same_channels_refl
      split: sum.splits)

lemma same_channels_render_route: "same_channels s (snd (render_route E r s))"
  by (simp add: render_route_def snd_settle_render same_channels_render)

lemma same_channels_collect_body: "same_channels s (snd (collect_body b r s))"
  by (simp add: collect_body_def Let_def same_channels_def)

lemma same_channels_first_catch: "same_channels s (snd (first_catch E e s))"
proof -
  have "same_channels s (snd (render_error E x ((logger l m s)\<lparr>statusCode := c\<rparr>)))" for x l m c
    using same_channels_render_error [of "(logger l m s)\<lparr>statusCode := c\<rparr>" E x]
    by (simp add: same_channels_def)
  then show ?thesis
    by (simp add: first_catch_def Let_def same_channels_refl same_channels_logger split: sum.splits)
qed

lemma same_channels_second_catch: "same_channels s (snd (second_catch E e s))"
proof -
  have "same_channels s (snd (render_error E x (s\<lparr>statusCode := c\<rparr>)))" for x c
    using same_channels_render_error [of "s\<lparr>statusCode := c\<rparr>" E x]
    by (simp add: same_channels_def)
  then show ?thesis
    by (simp add: second_catch_def same_channels_refl split: sum.splits)
qed

lemma same_channels_third_catch: "same_channels s (snd (third_catch E e s))"
  by (simp add: third_catch_def same_channels_refl same_channels_logger split: sum.splits)

lemma then_js_channels:
  assumes "\<And>v s. same_channels s (snd (f v s))" and "same_channels s0 (snd x)"
  shows "same_channels s0 (snd (then_js f x))"
proof (cases x)
  case (Pair o1 s1)
  with assms(2) have "same_channels s0 s1" by simp
  with assms(1) Pair show ?thesis
    by (cases o1) (auto intro: same_channels_trans)
qed

lemma catch_js_channels:
  assumes "\<And>v s. same_channels s (snd (f v s))" and "same_channels s0 (snd x)"
  shows "same_channels s0 (snd (catch_js f x))"
proof (cases x)
  case (Pair o1 s1)
  with assms(2) have "same_channels s0 s1" by simp
  with assms(1) Pair show ?thesis
    by (cases o1) (auto intro: same_channels_trans)
qed

lemma process_channels: "same_channels (attach_listeners s) (snd (process E r b s))"
  unfolding process_def
  by (intro catch_js_channels then_js_channels same_channels_third_catch
      same_channels_second_catch same_channels_first_catch same_channels_render_route
      same_channels_collect_body) (simp add: same_channels_refl)

lemma destroy_fields:
  "emitted (Request_destroy s) = emitted s @ [''destroy'']"
  "delivered (Request_destroy s) =
     delivered s @ map (\<lambda>l. (''destroy'', fst (snd l))) (filter (\<lambda>l. fst l = ''destroy'') (emitter_listeners s))"
  "emitter_listeners (Request_destroy s) = []"
  "response_once (Request_destroy s) = response_once s"
  by (simp_all add: Request_destroy_def emit_def removeAllListeners_def)

lemma signals:
  assumes "response_once s' = [(''finish'', CallDestroy), (''close'', CallDestroy)]"
  shows "response_emit ''finish'' s' = Request_destroy (s'\<lparr>response_once := [(''close'', CallDestroy)]\<rparr>)"
    and "response_emit ''close'' s' = Request_destroy (s'\<lparr>response_once := [(''finish'', CallDestroy)]\<rparr>)"
  using assms by (simp_all add: response_emit_def)

lemma signal_rest:
  assumes "response_once s' = [(a, CallDestroy)]"
  shows "response_emit a s' = Request_destroy (s'\<lparr>response_once := []\<rparr>)"
    and "a \<noteq> c \<Longrightarrow> response_emit c s' = s'"
  using assms by (simp_all add: response_emit_def)

lemma render_error_HttpError:
  "render_error E (JHttpError c m d st) s =
     settle (render E (JStr (clean E (toStringOf E (JHttpError c m d st)))) s)"
  by (simp add: render_error_def)

lemma first_catch_HttpError:
  "first_catch E (JHttpError c m d st) s =
     settle (render E (JStr (clean E (toStringOf E (JHttpError c m d st))))
       ((logger ErrorLevel m s)\<lparr>statusCode := c\<rparr>))"
  by (simp add: first_catch_def force_HttpError_def Let_def render_error_HttpError)

lemma force_HttpError_value:
  assumes "v \<noteq> JUndefined" "v \<noteq> JNull" "\<not> instanceof_HttpError v"
  shows "\<exists>m st. prop_message E v = Inr m \<and> prop_stack E v = Inr st \<and>
           force_HttpError E v = Inr (JHttpError 500 m (JRecord []) st)"
  using assms by (cases v) (simp_all add: force_HttpError_def new_HttpError_def)

lemma force_HttpError_HttpError:
  "instanceof_HttpError v \<Longrightarrow> force_HttpError E v = Inr v"
  by (simp add: force_HttpError_def)

lemma first_catch_value:
  assumes "v \<noteq> JUndefined" "v \<noteq> JNull" "\<not> instanceof_HttpError v"
  shows "\<exists>m st. prop_message E v = Inr m \<and> prop_stack E v = Inr st \<and>
           first_catch E v s = first_catch E (JHttpError 500 m (JRecord []) st) s"
proof -
  from force_HttpError_value [OF assms, of E] obtain m st where
    *: "prop_message E v = Inr m" "prop_stack E v = Inr st"
       "force_HttpError E v = Inr (JHttpError 500 m (JRecord []) st)"
    by blast
  then have "first_catch E v s = first_catch E (JHttpError 500 m (JRecord []) st) s"
    by (simp add: first_catch_def force_HttpError_def)
  with * show ?thesis by blast
qed

lemma first_catch_normalizes:
  assumes "v \<noteq> JUndefined" "v \<noteq> JNull" "\<not> instanceof_HttpError v"
  shows "\<exists>m st. prop_message E v = Inr m \<and> prop_stack E v = Inr st \<and>
           force_HttpError E v = Inr (JHttpError 500 m (JRecord []) st) \<and>
           first_catch E v s =
             settle (render E (JStr (clean E (toStringOf E (JHttpError 500 m (JRecord []) st))))
               ((logger ErrorLevel m s)\<lparr>statusCode := 500\<rparr>))"
proof -
  from force_HttpError_value [OF assms, of E] obtain m st where
    *: "prop_message E v = Inr m" "prop_stack E v = Inr st"
       "force_HttpError E v = Inr (JHttpError 500 m (JRecord []) st)"
    by blast
  then have "first_catch E v s =
             settle (render E (JStr (clean E (toStringOf E (JHttpError 500 m (JRecord []) st))))
               ((logger ErrorLevel m s)\<lparr>statusCode := 500\<rparr>))"
    by (simp add: first_catch_def Let_def render_error_HttpError)
  with * show ?thesis by blast
qed

lemma process_Rejected:
  "process E (Rejected v) b s =
     catch_js (third_catch E) (catch_js (second_catch E) (first_catch E v (attach_listeners s)))"
  by (simp add: process_def)

lemma process_rejected_value:
  assumes "v \<noteq> JUndefined" "v \<noteq> JNull"
  shows "\<exists>txt. fst (process E (Rejected v) b s) = Fulfilled (JStr txt) \<and>
     response_calls (snd (process E (Rejected v) b s)) =
       response_calls s @
         [WriteHead (case v of JHttpError c m d st \<Rightarrow> c | _ \<Rightarrow> 500) [(''Content-Type'', ''text/html'')],
          Write (JStr txt), End]"
proof (cases "instanceof_HttpError v")
  case True
  then obtain c m d st where v: "v = JHttpError c m d st" by (cases v) simp_all
  show ?thesis
    by (simp add: v process_Rejected first_catch_HttpError render_JStr)
next
  case False
  from first_catch_normalizes [OF assms False, of E "attach_listeners s"] obtain m st where
    "first_catch E v (attach_listeners s) =
       settle (render E (JStr (clean E (toStringOf E (JHttpError 500 m (JRecord []) st))))
         ((logger ErrorLevel m (attach_listeners s))\<lparr>statusCode := 500\<rparr>))"
    by blast
  moreover from False have "(case v of JHttpError c m d st \<Rightarrow> c | _ \<Rightarrow> 500) = 500"
    by (cases v) simp_all
  ultimately show ?thesis
    by (simp add: process_Rejected render_JStr)
qed

lemma third_catch_fulfils:
  "e \<noteq> JUndefined \<Longrightarrow> e \<noteq> JNull \<Longrightarrow> fst (third_catch E e s) = Fulfilled (logger_returns E)"
  by (cases e) (simp_all add: third_catch_def)

lemma second_catch_rejects:
  "fst (second_catch E e s) = Rejected t \<Longrightarrow> t \<noteq> JUndefined \<and> t \<noteq> JNull"
  by (cases e) (auto simp: second_catch_def render_error_def render_JStr type_error_def)

lemma process_never_rejects: "fst (process E r b s) \<noteq> Rejected t"
proof -
  define y where "y = catch_js (first_catch E)
     (then_js (render_route E) (then_js (collect_body b) (r, attach_listeners s)))"
  have p: "process E r b s = catch_js (third_catch E) (catch_js (second_catch E) y)"
    by (simp add: process_def y_def)
  obtain o1 s1 where y: "y = (o1, s1)" by (cases y)
  show ?thesis
  proof (cases o1)
    case (Fulfilled v)
    with p y show ?thesis by simp
  next
    case Pending
    with p y show ?thesis by simp
  next
    case (Rejected e)
    obtain o2 s2 where x: "second_catch E e s1 = (o2, s2)" by (cases "second_catch E e s1")
    show ?thesis
    proof (cases o2)
      case (Rejected t')
      with x second_catch_rejects [of E e s1 t'] have "t' \<noteq> JUndefined" "t' \<noteq> JNull" by simp_all
      from third_catch_fulfils [OF this] p y x \<open>o1 = Rejected e\<close> Rejected show ?thesis by simp
    qed (use p y x \<open>o1 = Rejected e\<close> in simp_all)
  qed
qed

section \<open>Claims about the request orchestrator\<close>

text \<open>
  Claim C9. For a textual or binary payload \<open>render\<close> writes the head with the current
  status code and the fixed content type, writes the payload, ends the response and
  returns the payload. For any other payload it writes nothing, logs \<open>Invalid response
  type\<close> at error severity and throws a structured error with status 500 that carries the
  payload.
\<close>

theorem render_guard:
  "(isString v \<or> instanceof_Buffer v \<longrightarrow>
      fst (render E v s) = Inr v \<and>
      response_calls (snd (render E v s)) =
        response_calls s @ [WriteHead (statusCode s) [(''Content-Type'', ''text/html'')], Write v, End]) \<and>
   (\<not> (isString v \<or> instanceof_Buffer v) \<longrightarrow>
      fst (render E v s) =
        Inl (JHttpError 500 (JStr ''ResponseType must be string or buffer'')
               (JRecord [(''response'', v)]) (stack_trace E)) \<and>
      response_calls (snd (render E v s)) = response_calls s \<and>
      logged (snd (render E v s)) =
        logged s @ [(InfoLevel, JStr ''Request.render''), (ErrorLevel, JStr ''Invalid response type'')])"
  by (simp add: render_text render_other)

theorem render_guard_witness:
  "fst (render example_env (JStr ''hello'') new_request) = Inr (JStr ''hello'') \<and>
   response_calls (snd (render example_env (JStr ''hello'') new_request)) =
     [WriteHead 200 [(''Content-Type'', ''text/html'')], Write (JStr ''hello''), End] \<and>
   fst (render example_env (JNum 5) new_request) =
     Inl (JHttpError 500 (JStr ''ResponseType must be string or buffer'')
            (JRecord [(''response'', JNum 5)]) (JStr ''at Request.render'')) \<and>
   response_calls (snd (render example_env (JNum 5) new_request)) = [] \<and>
   logged (snd (render example_env (JNum 5) new_request)) =
     [(InfoLevel, JStr ''Request.render''), (ErrorLevel, JStr ''Invalid response type'')]"
  using render_guard [of "JStr ''hello''" example_env new_request]
    render_guard [of "JNum 5" example_env new_request]
  by (simp add: new_request_def example_env_def)

text \<open>
  Claim C8. When the resolved route's method is POST, PATCH or PUT and the request is not
  forwarded, the chunks of the body are appended to \<open>data\<close> in arrival order; when the body
  ends, \<open>render\<close> is called on the orchestrator with that buffer, for the text of the route
  resolved before; while the body has not ended the promise stays pending and nothing is
  written. For any other method, or a forwarded request, \<open>data\<close> is left as it was and
  \<open>render\<close> is called for the same route.
\<close>

theorem body_accumulation:
  "((route_method r = POST \<or> route_method r = PATCH \<or> route_method r = PUT) \<and> \<not> isForwarded s \<longrightarrow>
      (ended b \<longrightarrow>
         (\<exists>s1. data s1 = data s @ chunks b \<and> response_calls s1 = response_calls s \<and>
            statusCode s1 = statusCode s \<and>
            process E (Fulfilled r) b s =
              settle (render E (JStr (route r @ method_text E (route_method r))) s1))) \<and>
      (\<not> ended b \<longrightarrow>
         fst (process E (Fulfilled r) b s) = Pending \<and>
         data (snd (process E (Fulfilled r) b s)) = data s @ chunks b \<and>
         response_calls (snd (process E (Fulfilled r) b s)) = response_calls s)) \<and>
   (\<not> ((route_method r = POST \<or> route_method r = PATCH \<or> route_method r = PUT) \<and> \<not> isForwarded s) \<longrightarrow>
      data (snd (process E (Fulfilled r) b s)) = data s \<and>
      (\<exists>s1. data s1 = data s \<and> response_calls s1 = response_calls s \<and>
         statusCode s1 = statusCode s \<and>
         process E (Fulfilled r) b s =
           settle (render E (JStr (route r @ method_text E (route_method r))) s1)))"
proof -
  let ?payload = "JStr (route r @ method_text E (route_method r))"
  let ?s0 = "logger InfoLevel (JStr ''Route.parseRequest'') (attach_listeners s)"
  let ?s1 = "?s0\<lparr>data := data (attach_listeners s) @ chunks b\<rparr>"
  show ?thesis
  proof (cases "(route_method r = POST \<or> route_method r = PATCH \<or> route_method r = PUT) \<and> \<not> isForwarded s")
    case True
    then have c: "collect_body b r (attach_listeners s) =
        (if ended b then Fulfilled r else Pending, ?s1)"
      by (intro collect_body_mutating) simp_all
    show ?thesis
    proof (cases "ended b")
      case e: True
      have "process E (Fulfilled r) b s = settle (render E ?payload ?s1)"
        using e by (simp add: process_def c render_route_def render_JStr)
      moreover have "data ?s1 = data s @ chunks b" "response_calls ?s1 = response_calls s"
        "statusCode ?s1 = statusCode s"
        by simp_all
      ultimately show ?thesis using True e by blast
    next
      case e: False
      have "process E (Fulfilled r) b s = (Pending, ?s1)"
        using e by (simp add: process_def c)
      then show ?thesis using True e by simp
    qed
  next
    case False
    then have c: "collect_body b r (attach_listeners s) = (Fulfilled r, ?s0)"
      by (intro collect_body_other) simp
    have p: "process E (Fulfilled r) b s = settle (render E ?payload ?s0)"
      by (simp add: process_def c render_route_def render_JStr)
    then have "data (snd (process E (Fulfilled r) b s)) = data s"
      by (simp add: render_JStr)
    moreover have "data ?s0 = data s" "response_calls ?s0 = response_calls s"
        "statusCode ?s0 = statusCode s"
      by simp_all
    ultimately show ?thesis using p False by blast
  qed
qed

theorem body_accumulation_witness:
  "(\<exists>s1. data s1 = [JStr ''a'', JStr ''b'', JStr ''c''] \<and> response_calls s1 = [] \<and>
      statusCode s1 = 200 \<and>
      process example_env (Fulfilled put_route) abc_body new_request =
        settle (render example_env (JStr ''/items7'') s1)) \<and>
   data (snd (process example_env (Fulfilled get_route) abc_body new_request)) = []"
  using body_accumulation [of put_route new_request abc_body example_env]
    body_accumulation [of get_route new_request abc_body example_env]
  by (simp add: put_route_def get_route_def new_request_def abc_body_def example_env_def)

text \<open>
  Claim C3, as amended. On an orchestrator that is not forwarded (and has no listener on
  the response before \<open>process\<close>), each of the signals \<open>finish\<close> and \<open>close\<close> runs \<open>destroy\<close>
  at its first firing only. When both fire, in either order, \<open>destroy\<close> runs twice and
  \<open>destroy\<close> is emitted twice on the event emitter; the listeners attached to the emitter
  receive the first emission only, because the first \<open>destroy\<close> detaches them all.
\<close>

theorem teardown_per_signal:
  assumes "\<not> isForwarded s" and "response_once s = []"
  shows "emitted (response_emit ''close'' (response_emit ''finish'' (snd (process E r b s)))) =
           emitted s @ [''destroy'', ''destroy''] \<and>
         emitted (response_emit ''finish'' (response_emit ''close'' (snd (process E r b s)))) =
           emitted s @ [''destroy'', ''destroy''] \<and>
         delivered (response_emit ''close'' (response_emit ''finish'' (snd (process E r b s)))) =
           delivered s @ map (\<lambda>l. (''destroy'', fst (snd l)))
             (filter (\<lambda>l. fst l = ''destroy'') (emitter_listeners s)) \<and>
         delivered (response_emit ''finish'' (response_emit ''close'' (snd (process E r b s)))) =
           delivered s @ map (\<lambda>l. (''destroy'', fst (snd l)))
             (filter (\<lambda>l. fst l = ''destroy'') (emitter_listeners s)) \<and>
         emitted (response_emit ''finish'' (response_emit ''finish'' (snd (process E r b s)))) =
           emitted s @ [''destroy''] \<and>
         emitted (response_emit ''close'' (response_emit ''close'' (snd (process E r b s)))) =
           emitted s @ [''destroy'']"
proof -
  let ?s' = "snd (process E r b s)"
  from process_channels [of s E r b] assms
  have once: "response_once ?s' = [(''finish'', CallDestroy), (''close'', CallDestroy)]"
    and em: "emitted ?s' = emitted s" "delivered ?s' = delivered s"
      "emitter_listeners ?s' = emitter_listeners s"
    by (simp_all add: same_channels_def attach_listeners_def)
  have f: "response_emit ''finish'' ?s' = Request_destroy (?s'\<lparr>response_once := [(''close'', CallDestroy)]\<rparr>)"
    and c: "response_emit ''close'' ?s' = Request_destroy (?s'\<lparr>response_once := [(''finish'', CallDestroy)]\<rparr>)"
    using signals [OF once] by simp_all
  have f1: "response_once (response_emit ''finish'' ?s') = [(''close'', CallDestroy)]"
    and c1: "response_once (response_emit ''close'' ?s') = [(''finish'', CallDestroy)]"
    by (simp_all add: f c destroy_fields)
  have "response_emit ''close'' (response_emit ''finish'' ?s') =
      Request_destroy ((response_emit ''finish'' ?s')\<lparr>response_once := []\<rparr>)"
    by (rule signal_rest(1) [OF f1])
  moreover have "response_emit ''finish'' (response_emit ''close'' ?s') =
      Request_destroy ((response_emit ''close'' ?s')\<lparr>response_once := []\<rparr>)"
    by (rule signal_rest(1) [OF c1])
  moreover have "response_emit ''finish'' (response_emit ''finish'' ?s') = response_emit ''finish'' ?s'"
    by (rule signal_rest(2) [OF f1]) simp
  moreover have "response_emit ''close'' (response_emit ''close'' ?s') = response_emit ''close'' ?s'"
    by (rule signal_rest(2) [OF c1]) simp
  ultimately show ?thesis
    by (simp add: destroy_fields f c em)
qed

theorem teardown_per_signal_witness:
  "emitted (response_emit ''close'' (response_emit ''finish''
      (snd (process example_env (Fulfilled get_route) no_body new_request)))) = [''destroy'', ''destroy''] \<and>
   emitted (response_emit ''finish'' (response_emit ''close''
      (snd (process example_env (Fulfilled get_route) no_body new_request)))) = [''destroy'', ''destroy''] \<and>
   delivered (response_emit ''close'' (response_emit ''finish''
      (snd (process example_env (Fulfilled get_route) no_body new_request)))) = [(''destroy'', 7)] \<and>
   emitted (response_emit ''finish'' (response_emit ''finish''
      (snd (process example_env (Fulfilled get_route) no_body new_request)))) = [''destroy'']"
proof -
  have "\<not> isForwarded new_request" "response_once new_request = []"
    by (simp_all add: new_request_def)
  from teardown_per_signal [OF this, of example_env "Fulfilled get_route" no_body]
  show ?thesis by (simp add: new_request_def)
qed

text \<open>
  Claim C3 as stated asks for exactly one teardown and one emission when both signals
  fire. On the example orchestrator nothing is emitted by \<open>process\<close>, and after \<open>finish\<close>
  and \<open>close\<close> the emitter has emitted \<open>destroy\<close> twice: the two listeners are attached
  separately with \<open>once\<close>, and nothing makes the second one a no-op.
\<close>

theorem single_teardown_counterexample:
  "\<not> isForwarded new_request \<and>
   emitted (snd (process example_env (Fulfilled get_route) no_body new_request)) = [] \<and>
   emitted (response_emit ''close'' (response_emit ''finish''
      (snd (process example_env (Fulfilled get_route) no_body new_request)))) = [''destroy'', ''destroy'']"
  by (simp add: new_request_def example_env_def get_route_def no_body_def process_def
      attach_listeners_def collect_body_def render_route_def render_def logger_def Let_def
      response_emit_def Request_destroy_def emit_def removeAllListeners_def)

text \<open>
  Claim C7. The first recovery stage replaces every thrown value that is not a structured
  error by a structured error with status 500 and the message and stack of the original,
  and sets the status code from it before rendering. This holds for every value but
  \<open>undefined\<close> and \<open>null\<close> (\<open>first_catch_normalizes\<close>). On these two, reading \<open>message\<close>
  throws inside the handler: no structured error is built, the status code is not set and
  nothing is rendered.
\<close>

theorem first_catch_undefined:
  "force_HttpError E JUndefined = Inl (type_error E ''Cannot read property 'message' of undefined'') \<and>
   first_catch E JUndefined s = (Rejected (type_error E ''Cannot read property 'message' of undefined''), s) \<and>
   force_HttpError E JNull = Inl (type_error E ''Cannot read property 'message' of null'') \<and>
   first_catch E JNull s = (Rejected (type_error E ''Cannot read property 'message' of null''), s)"
  by (simp add: first_catch_def force_HttpError_def)

text \<open>
  Claim C2. Whatever the router's promise is rejected with, \<open>process\<close> resolves and exactly
  one response is written, with status 500 unless the error gives another. The promise of
  \<open>process\<close> is indeed never rejected (\<open>process_never_rejects\<close>), and one response is written
  for every rejection value but \<open>undefined\<close> and \<open>null\<close> (\<open>process_rejected_value\<close>). For
  \<open>undefined\<close> the first handler throws on reading \<open>message\<close>, the second throws on
  \<open>getCode\<close>, which a native error does not have, and the third logs: the promise is
  fulfilled and no response is written.
\<close>

theorem process_rejected_undefined:
  "fst (process E (Rejected JUndefined) b s) = Fulfilled (logger_returns E) \<and>
   response_calls (snd (process E (Rejected JUndefined) b s)) = response_calls s \<and>
   statusCode (snd (process E (Rejected JUndefined) b s)) = statusCode s \<and>
   logged (snd (process E (Rejected JUndefined) b s)) =
     logged s @ [(ErrorLevel, JStr ''error.getCode is not a function'')]"
  by (simp add: process_Rejected first_catch_def force_HttpError_def second_catch_def
      third_catch_def type_error_def)

end
